theory Spec2Isabelle
  imports Main "HOL-Library.Word" "HOL-Library.AList"
begin

text \<open>
  A shallow embedding of the document model of the editor (\<open>DocumentModel.ts\<close>): styled
  paragraphs of text with run-length encoded styles, addressed by grapheme offsets, under
  insertion, deletion, style application, copy and paste.
\<close>

section \<open>JavaScript values used by the document model\<close>

text \<open>
  A JavaScript string is a sequence of UTF-16 code units. \<open>String.prototype.slice\<close>
  and \<open>Array.prototype.slice\<close> share one index rule: a negative index counts back from
  the end, every index is clamped to the length, and an empty result is returned when the
  end does not lie after the start. \<open>splice\<close> clamps its delete count the same way.
\<close>

type_synonym code_unit = "16 word"
type_synonym jstring = "code_unit list"

definition relIndex :: "int \<Rightarrow> nat \<Rightarrow> nat" where
  "relIndex i n = (if i < 0 then nat (max (int n + i) 0) else min (nat i) n)"

definition slice :: "'a list \<Rightarrow> int \<Rightarrow> int option \<Rightarrow> 'a list" where
  "slice xs start end_opt =
     (let n = length xs;
          k = relIndex start n;
          e = (case end_opt of None \<Rightarrow> n | Some j \<Rightarrow> relIndex j n)
      in take (e - k) (drop k xs))"

definition splice :: "'a list \<Rightarrow> int \<Rightarrow> int option \<Rightarrow> 'a list \<Rightarrow> 'a list" where
  "splice xs start deleteCount items =
     (let n = length xs;
          k = relIndex start n;
          dc = (case deleteCount of None \<Rightarrow> n - k | Some c \<Rightarrow> min (nat (max c 0)) (n - k))
      in take k xs @ items @ drop (k + dc) xs)"

text \<open>Code units of an ASCII literal.\<close>

definition utf16 :: "string \<Rightarrow> jstring" where
  "utf16 s = map (\<lambda>c. of_nat (of_char c)) s"

definition newline :: code_unit where
  "newline = 0x0A"

text \<open>\<open>String.prototype.split('\n')\<close>: the pieces between line feeds; one piece for a
  text without line feed, the empty text included.\<close>

fun split_acc :: "jstring \<Rightarrow> jstring \<Rightarrow> jstring list" where
  "split_acc cur [] = [cur]"
| "split_acc cur (c # cs) =
     (if c = newline then cur # split_acc [] cs else split_acc (cur @ [c]) cs)"

definition split_newline :: "jstring \<Rightarrow> jstring list" where
  "split_newline t = split_acc [] t"

text \<open>\<open>String.prototype.trim\<close> removes the WhiteSpace and LineTerminator code units of
  ECMAScript from both ends.\<close>

definition isWhiteSpace :: "code_unit \<Rightarrow> bool" where
  "isWhiteSpace c \<longleftrightarrow>
     c \<in> {0x09, 0x0A, 0x0B, 0x0C, 0x0D, 0x20, 0xA0, 0x1680, 0x2028, 0x2029, 0x202F,
          0x205F, 0x3000, 0xFEFF} \<or> (0x2000 \<le> c \<and> c \<le> 0x200A)"

definition trim :: "jstring \<Rightarrow> jstring" where
  "trim t = rev (dropWhile isWhiteSpace (rev (dropWhile isWhiteSpace t)))"

subsection \<open>Styles\<close>

text \<open>
  A \<open>TextStyle\<close> is a plain object: an ordered list of keys with JSON values. The object
  spread \<open>{ ...a, ...b }\<close> copies the properties of \<open>a\<close> in order and then assigns those
  of \<open>b\<close>: an existing key keeps its place and takes the new value, a new key goes to the
  end. \<open>areStylesEqual\<close> compares the \<open>JSON.stringify\<close> images, which are equal exactly
  when the ordered key and value lists are.
\<close>

datatype jvalue = JNum int | JStr string | JBool bool | JObj "(string \<times> jvalue) list"

type_synonym style = "(string \<times> jvalue) list"

definition spread :: "style \<Rightarrow> style \<Rightarrow> style" where
  "spread a b = fold (\<lambda>(k, v). AList.update k v) b a"

definition areStylesEqual :: "style \<Rightarrow> style \<Rightarrow> bool" where
  "areStylesEqual styleA styleB \<longleftrightarrow> styleA = styleB"

section \<open>Data model\<close>

record Run =
  length_r :: int
  style :: style

record Paragraph =
  text_p :: jstring
  runs :: "Run list"
  yOffset :: int

record Document =
  paragraphs :: "Paragraph list"

record Position =
  paragraphIndex :: int
  offset :: int

record clipboard_paragraph =
  text_c :: jstring
  runs_c :: "Run list"

type_synonym clipboardData = "clipboard_paragraph list"

text \<open>The messages of the thrown \<open>Error\<close>s, and the \<open>TypeError\<close> of reading a property of
  \<open>undefined\<close>.\<close>

datatype error =
    Invalid_paragraph_index int
  | Invalid_offset int int
  | Invalid_range
  | TypeError

text \<open>\<open>Intl.Segmenter\<close> and \<open>String.prototype.normalize\<close> belong to the platform; the
  model takes them as parameters.\<close>

type_synonym segmenter = "jstring \<Rightarrow> jstring list"
type_synonym normalizer = "jstring \<Rightarrow> jstring"

text \<open>
  A segmenter for evaluation: a high surrogate followed by a low surrogate is one
  cluster, every other code unit is a cluster of its own. This is what the default
  grapheme cluster boundaries give on text without combining marks, joiners, CR LF,
  Hangul jamo, regional indicators or emoji modifiers.
\<close>

definition isHighSurrogate :: "code_unit \<Rightarrow> bool" where
  "isHighSurrogate c \<longleftrightarrow> 0xD800 \<le> c \<and> c \<le> 0xDBFF"

definition isLowSurrogate :: "code_unit \<Rightarrow> bool" where
  "isLowSurrogate c \<longleftrightarrow> 0xDC00 \<le> c \<and> c \<le> 0xDFFF"

fun pairSegmenter :: segmenter where
  "pairSegmenter [] = []"
| "pairSegmenter [c] = [[c]]"
| "pairSegmenter (c # d # cs) =
     (if isHighSurrogate c \<and> isLowSurrogate d then [c, d] # pairSegmenter cs
      else [c] # pairSegmenter (d # cs))"

section \<open>Grapheme index\<close>

definition getGraphemeCount :: "segmenter \<Rightarrow> jstring \<Rightarrow> int" where
  "getGraphemeCount seg t = int (length (seg t))"

definition validatePosition :: "segmenter \<Rightarrow> Document \<Rightarrow> Position \<Rightarrow> error option" where
  "validatePosition seg doc pos =
     (if paragraphIndex pos < 0 \<or> paragraphIndex pos \<ge> int (length (paragraphs doc))
      then Some (Invalid_paragraph_index (paragraphIndex pos))
      else let para = paragraphs doc ! nat (paragraphIndex pos);
               graphemeCount = getGraphemeCount seg (text_p para)
           in if offset pos < 0 \<or> offset pos > graphemeCount
              then Some (Invalid_offset (offset pos) graphemeCount)
              else None)"

text \<open>\<open>sliceTextByGraphemes\<close>: the empty text for a missing paragraph or an empty text,
  otherwise the joined \<open>slice\<close> of the array of clusters. It has no failing path.\<close>

definition sliceTextByGraphemes ::
  "segmenter \<Rightarrow> Document \<Rightarrow> int \<Rightarrow> int \<Rightarrow> int option \<Rightarrow> jstring" where
  "sliceTextByGraphemes seg doc index start end_opt =
     (if index < 0 \<or> index \<ge> int (length (paragraphs doc)) then []
      else let para = paragraphs doc ! nat index
           in if text_p para = [] then []
              else concat (slice (seg (text_p para)) start end_opt))"

section \<open>Run ledger\<close>

fun mergeLoop :: "Run list \<Rightarrow> Run list \<Rightarrow> Run list" where
  "mergeLoop merged [] = merged"
| "mergeLoop merged (currentRun # rest) =
     (let lastRun = last merged
      in if areStylesEqual (style lastRun) (style currentRun)
         then mergeLoop (butlast merged @
                [lastRun\<lparr>length_r := length_r lastRun + length_r currentRun\<rparr>]) rest
         else mergeLoop (merged @ [currentRun]) rest)"

definition mergeAdjacentRuns :: "Run list \<Rightarrow> Run list" where
  "mergeAdjacentRuns rs =
     (if length rs \<le> 1 then rs else mergeLoop [hd rs] (tl rs))"

record run_position =
  runIndex :: int
  offsetInRun :: int

fun findRunLoop :: "Run list \<Rightarrow> int \<Rightarrow> int \<Rightarrow> int \<Rightarrow> run_position" where
  "findRunLoop [] off currentOffset i = \<lparr>runIndex = -1, offsetInRun = 0\<rparr>"
| "findRunLoop (r # rs) off currentOffset i =
     (if currentOffset + length_r r > off
      then \<lparr>runIndex = i, offsetInRun = off - currentOffset\<rparr>
      else findRunLoop rs off (currentOffset + length_r r) (i + 1))"

definition findRunAtOffset :: "Paragraph \<Rightarrow> int \<Rightarrow> run_position" where
  "findRunAtOffset para off = findRunLoop (runs para) off 0 0"

fun clipRuns :: "int \<Rightarrow> int \<Rightarrow> Run list \<Rightarrow> Run list" where
  "clipRuns graphemeCount currentOffset [] = []"
| "clipRuns graphemeCount currentOffset (r # rs) =
     (let nextOffset = min (currentOffset + length_r r) graphemeCount
      in r\<lparr>length_r := nextOffset - currentOffset\<rparr> # clipRuns graphemeCount nextOffset rs)"

definition updateRunLengths :: "segmenter \<Rightarrow> Paragraph \<Rightarrow> Paragraph" where
  "updateRunLengths seg para =
     para\<lparr>runs := filter (\<lambda>r. length_r r > 0)
                     (clipRuns (getGraphemeCount seg (text_p para)) 0 (runs para))\<rparr>"

text \<open>\<open>splitRunsAtOffset\<close> cuts the run that holds the offset strictly inside.\<close>

definition splitRunsAtOffset :: "Paragraph \<Rightarrow> int \<Rightarrow> Paragraph" where
  "splitRunsAtOffset para off =
     (let pos = findRunAtOffset para off
      in if runIndex pos \<noteq> -1 \<and> offsetInRun pos > 0
         then let r = runs para ! nat (runIndex pos)
              in if offsetInRun pos < length_r r
                 then para\<lparr>runs := splice (runs para) (runIndex pos) (Some 1)
                        [\<lparr>length_r = offsetInRun pos, style = style r\<rparr>,
                         \<lparr>length_r = length_r r - offsetInRun pos, style = style r\<rparr>]\<rparr>
                 else para
         else para)"

section \<open>Document editor\<close>

text \<open>
  The methods mutate the document held by the model in place; the embedding passes the
  document in and returns the document as it is when the method returns or throws,
  together with the returned value or the thrown error.
\<close>

type_synonym 'a outcome = "(error + 'a) \<times> Document"

text \<open>The checks with which \<open>deleteText\<close>, \<open>applyStyle\<close> and \<open>copyText\<close> begin, in their
  order: the start position, the end position, then the order of the two.\<close>

definition validateRange :: "segmenter \<Rightarrow> Document \<Rightarrow> Position \<Rightarrow> Position \<Rightarrow> error option" where
  "validateRange seg doc start end =
     (case validatePosition seg doc start of
        Some e \<Rightarrow> Some e
      | None \<Rightarrow>
         (case validatePosition seg doc end of
            Some e \<Rightarrow> Some e
          | None \<Rightarrow>
             if paragraphIndex start > paragraphIndex end \<or>
                (paragraphIndex start = paragraphIndex end \<and> offset start > offset end)
             then Some Invalid_range else None))"

subsection \<open>insertText\<close>

definition insertTextIntoRun :: "Paragraph \<Rightarrow> int \<Rightarrow> int \<Rightarrow> int \<Rightarrow> style \<Rightarrow> Paragraph" where
  "insertTextIntoRun para runIdx offsetIn textLength st =
     (let r = runs para ! nat runIdx
      in if areStylesEqual (style r) st
         then para\<lparr>runs := (runs para)[nat runIdx := r\<lparr>length_r := length_r r + textLength\<rparr>]\<rparr>
         else let newRuns =
                    (if offsetIn > 0 then [\<lparr>length_r = offsetIn, style = style r\<rparr>] else []) @
                    [\<lparr>length_r = textLength, style = st\<rparr>] @
                    (if offsetIn < length_r r
                     then [\<lparr>length_r = length_r r - offsetIn, style = style r\<rparr>] else [])
              in para\<lparr>runs := splice (runs para) runIdx (Some 1) newRuns\<rparr>)"

definition insertTextWithNewlines ::
  "segmenter \<Rightarrow> Position \<Rightarrow> jstring \<Rightarrow> style \<Rightarrow> Document \<Rightarrow> Document" where
  "insertTextWithNewlines seg pos t st doc =
     (let pieces = split_newline t;
          idx = nat (paragraphIndex pos);
          currentParagraph = paragraphs doc ! idx;
          beforeText = sliceTextByGraphemes seg doc (paragraphIndex pos) 0 (Some (offset pos));
          afterText = sliceTextByGraphemes seg doc (paragraphIndex pos) (offset pos) None;
          current' = splitRunsAtOffset (currentParagraph\<lparr>text_p := beforeText @ hd pieces\<rparr>)
                       (offset pos);
          middle = map (\<lambda>piece. \<lparr>text_p = piece,
                          runs = [\<lparr>length_r = getGraphemeCount seg piece, style = st\<rparr>],
                          yOffset = 0\<rparr>) (butlast (tl pieces));
          lastOne = (if length pieces > 1
                     then [\<lparr>text_p = last pieces @ afterText,
                            runs = [\<lparr>length_r = getGraphemeCount seg (last pieces @ afterText),
                                     style = st\<rparr>],
                            yOffset = 0\<rparr>]
                     else [])
      in doc\<lparr>paragraphs :=
               splice ((paragraphs doc)[idx := current']) (paragraphIndex pos + 1) (Some 0)
                 (middle @ lastOne)\<rparr>)"

definition insertText ::
  "segmenter \<Rightarrow> normalizer \<Rightarrow> Position \<Rightarrow> jstring \<Rightarrow> style \<Rightarrow> Document \<Rightarrow> unit outcome" where
  "insertText seg nfc pos t0 st doc =
     (case validatePosition seg doc pos of
        Some e \<Rightarrow> (Inl e, doc)
      | None \<Rightarrow>
         (let t = nfc t0
          in if newline \<in> set t then (Inr (), insertTextWithNewlines seg pos t st doc)
             else
               let idx = nat (paragraphIndex pos);
                   para = paragraphs doc ! idx;
                   textGraphemeCount = getGraphemeCount seg t;
                   para1 = para\<lparr>text_p := slice (text_p para) 0 (Some (offset pos)) @ t @
                                           slice (text_p para) (offset pos) None\<rparr>;
                   found = findRunAtOffset para1 (offset pos);
                   para2 = (if runIndex found = -1
                            then para1\<lparr>runs := runs para1 @
                                   [\<lparr>length_r = textGraphemeCount, style = st\<rparr>]\<rparr>
                            else insertTextIntoRun para1 (runIndex found) (offsetInRun found)
                                   textGraphemeCount st)
               in (Inr (), doc\<lparr>paragraphs :=
                                  (paragraphs doc)[idx := updateRunLengths seg para2]\<rparr>)))"

subsection \<open>deleteText\<close>

text \<open>\<open>paragraph.runs[endRunIndex] || firstRun\<close>: an index outside the array reads
  \<open>undefined\<close>, and the fallback is taken.\<close>

definition runOr :: "Run list \<Rightarrow> int \<Rightarrow> Run \<Rightarrow> Run" where
  "runOr rs i fallback = (if 0 \<le> i \<and> i < int (length rs) then rs ! nat i else fallback)"

definition updateRunsAfterDeletion :: "Paragraph \<Rightarrow> int \<Rightarrow> int \<Rightarrow> Paragraph" where
  "updateRunsAfterDeletion para startOffset len =
     (let startPos = findRunAtOffset para startOffset;
          startRunIndex = runIndex startPos;
          startOffsetInRun = offsetInRun startPos;
          endRunIndex = runIndex (findRunAtOffset para (startOffset + len))
      in if startRunIndex = -1 then para
         else
           let firstRun = runs para ! nat startRunIndex;
               lastRun = runOr (runs para) endRunIndex firstRun
           in if startRunIndex = endRunIndex
              then let firstRun' = firstRun\<lparr>length_r := length_r firstRun - len\<rparr>;
                       rs = (runs para)[nat startRunIndex := firstRun']
                   in if length_r firstRun' \<le> 0
                      then para\<lparr>runs := splice rs startRunIndex (Some 1) []\<rparr>
                      else para\<lparr>runs := rs\<rparr>
              else
                let remainingLength = startOffsetInRun +
                      (length_r lastRun -
                         (startOffset + len - (startOffset - startOffsetInRun)))
                in if remainingLength > 0
                   then para\<lparr>runs := splice
                          ((runs para)[nat startRunIndex :=
                              firstRun\<lparr>length_r := remainingLength\<rparr>])
                          (startRunIndex + 1) (Some (endRunIndex - startRunIndex)) []\<rparr>
                   else para\<lparr>runs := splice (runs para) startRunIndex
                          (Some (endRunIndex - startRunIndex + 1)) []\<rparr>)"

definition deleteWithinParagraph :: "segmenter \<Rightarrow> int \<Rightarrow> int \<Rightarrow> int \<Rightarrow> Document \<Rightarrow> Document" where
  "deleteWithinParagraph seg paraIndex startOffset endOffset doc =
     (let idx = nat paraIndex;
          para = paragraphs doc ! idx;
          graphemes = seg (text_p para);
          actualStart = max 0 startOffset;
          actualEnd = min (int (length graphemes)) endOffset;
          para1 = para\<lparr>text_p := concat (slice graphemes 0 (Some actualStart)) @
                                  concat (slice graphemes actualEnd None)\<rparr>;
          para2 = updateRunsAfterDeletion para1 actualStart (actualEnd - actualStart)
      in doc\<lparr>paragraphs := (paragraphs doc)[idx := updateRunLengths seg para2]\<rparr>)"

fun appendFrom :: "int \<Rightarrow> int \<Rightarrow> Run list \<Rightarrow> Run list" where
  "appendFrom endOffset globalGraphemeOffset [] = []"
| "appendFrom endOffset globalGraphemeOffset (r # rs) =
     (let runGraphemeCount = length_r r;
          pushed =
            (if globalGraphemeOffset + runGraphemeCount > endOffset
             then let runStart = max (endOffset - globalGraphemeOffset) 0;
                      len = runGraphemeCount - runStart
                  in if len > 0 then [\<lparr>length_r = len, style = style r\<rparr>] else []
             else [])
      in pushed @ appendFrom endOffset (globalGraphemeOffset + runGraphemeCount) rs)"

definition updateRunsAfterMultiParagraphDeletion ::
  "segmenter \<Rightarrow> Paragraph \<Rightarrow> int \<Rightarrow> Paragraph \<Rightarrow> int \<Rightarrow> Paragraph" where
  "updateRunsAfterMultiParagraphDeletion seg startParagraph startOffset endParagraph endOffset =
     (let startPos = findRunAtOffset startParagraph startOffset;
          startRunIndex = runIndex startPos;
          trimmed =
            (if startRunIndex \<noteq> -1
             then let startRun = runs startParagraph ! nat startRunIndex
                  in if offsetInRun startPos > 0
                     then splice ((runs startParagraph)[nat startRunIndex :=
                                     startRun\<lparr>length_r := offsetInRun startPos\<rparr>])
                            (startRunIndex + 1) None []
                     else splice (runs startParagraph) startRunIndex None []
             else []);
          merged = mergeAdjacentRuns (trimmed @ appendFrom endOffset 0 (runs endParagraph));
          wholeText = getGraphemeCount seg (text_p startParagraph)
      in if length merged > 0
         then let firstStyle = style (hd merged)
              in if list_all (\<lambda>r. areStylesEqual (style r) firstStyle) merged
                 then startParagraph\<lparr>runs := [\<lparr>length_r = wholeText, style = firstStyle\<rparr>]\<rparr>
                 else startParagraph\<lparr>runs := merged\<rparr>
         else startParagraph\<lparr>runs := [\<lparr>length_r = wholeText, style = []\<rparr>]\<rparr>)"

definition deleteAcrossParagraphs :: "segmenter \<Rightarrow> Position \<Rightarrow> Position \<Rightarrow> Document \<Rightarrow> Document" where
  "deleteAcrossParagraphs seg start end doc =
     (let si = nat (paragraphIndex start);
          startParagraph = paragraphs doc ! si;
          endParagraph = paragraphs doc ! nat (paragraphIndex end);
          newText = sliceTextByGraphemes seg doc (paragraphIndex start) 0 (Some (offset start)) @
                    sliceTextByGraphemes seg doc (paragraphIndex end) (offset end) None;
          start1 = startParagraph\<lparr>text_p := newText\<rparr>;
          ps1 = splice ((paragraphs doc)[si := start1]) (paragraphIndex start + 1)
                  (Some (paragraphIndex end - paragraphIndex start)) [];
          start2 = updateRunsAfterMultiParagraphDeletion seg start1 (offset start)
                     endParagraph (offset end)
      in doc\<lparr>paragraphs := ps1[si := updateRunLengths seg start2]\<rparr>)"

definition deleteText :: "segmenter \<Rightarrow> Position \<Rightarrow> Position \<Rightarrow> Document \<Rightarrow> unit outcome" where
  "deleteText seg start end doc =
     (case validateRange seg doc start end of
        Some e \<Rightarrow> (Inl e, doc)
      | None \<Rightarrow>
         if paragraphIndex start = paragraphIndex end
         then (Inr (), deleteWithinParagraph seg (paragraphIndex start) (offset start)
                         (offset end) doc)
         else (Inr (), deleteAcrossParagraphs seg start end doc))"

subsection \<open>applyStyle\<close>

fun applyLoop :: "int \<Rightarrow> int \<Rightarrow> style \<Rightarrow> int \<Rightarrow> Run list \<Rightarrow> Run list" where
  "applyLoop startOffset endOffset st currentOffset [] = []"
| "applyLoop startOffset endOffset st currentOffset (r # rs) =
     (let runStart = currentOffset;
          runEnd = currentOffset + length_r r;
          pushed =
            (if runEnd \<le> startOffset \<or> runStart \<ge> endOffset then [r]
             else
               (if runStart < startOffset
                then [\<lparr>length_r = startOffset - runStart, style = style r\<rparr>] else []) @
               [\<lparr>length_r = min runEnd endOffset - max runStart startOffset,
                 style = spread (style r) st\<rparr>] @
               (if runEnd > endOffset
                then [\<lparr>length_r = runEnd - endOffset, style = style r\<rparr>] else []))
      in pushed @ applyLoop startOffset endOffset st (currentOffset + length_r r) rs)"

text \<open>The runs that \<open>applyStyleToSingleParagraph\<close> assigns to the paragraph: the loop,
  then \<open>mergeAdjacentRuns\<close>.\<close>

definition applyStyleToRuns :: "int \<Rightarrow> int \<Rightarrow> style \<Rightarrow> Run list \<Rightarrow> Run list" where
  "applyStyleToRuns startOffset endOffset st rs =
     mergeAdjacentRuns (applyLoop startOffset endOffset st 0 rs)"

definition applyStyleToSingleParagraph :: "int \<Rightarrow> int \<Rightarrow> int \<Rightarrow> style \<Rightarrow> Document \<Rightarrow> Document" where
  "applyStyleToSingleParagraph paraIndex startOffset endOffset st doc =
     (let idx = nat paraIndex;
          para = paragraphs doc ! idx
      in doc\<lparr>paragraphs :=
               (paragraphs doc)[idx := para\<lparr>runs :=
                  applyStyleToRuns startOffset endOffset st (runs para)\<rparr>]\<rparr>)"

text \<open>The loop over the paragraphs strictly between the first and the last.\<close>

fun applyMiddle :: "segmenter \<Rightarrow> style \<Rightarrow> int list \<Rightarrow> Document \<Rightarrow> Document" where
  "applyMiddle seg st [] doc = doc"
| "applyMiddle seg st (i # is) doc =
     applyMiddle seg st is
       (applyStyleToSingleParagraph i 0
          (getGraphemeCount seg (text_p (paragraphs doc ! nat i))) st doc)"

definition applyStyleAcrossParagraphs ::
  "segmenter \<Rightarrow> Position \<Rightarrow> Position \<Rightarrow> style \<Rightarrow> Document \<Rightarrow> Document" where
  "applyStyleAcrossParagraphs seg start end st doc =
     (let doc1 = applyStyleToSingleParagraph (paragraphIndex start) (offset start)
                   (getGraphemeCount seg
                      (text_p (paragraphs doc ! nat (paragraphIndex start)))) st doc;
          doc2 = applyMiddle seg st [paragraphIndex start + 1 .. paragraphIndex end - 1] doc1
      in applyStyleToSingleParagraph (paragraphIndex end) 0 (offset end) st doc2)"

definition applyStyle :: "segmenter \<Rightarrow> Position \<Rightarrow> Position \<Rightarrow> style \<Rightarrow> Document \<Rightarrow> unit outcome" where
  "applyStyle seg start end st doc =
     (case validateRange seg doc start end of
        Some e \<Rightarrow> (Inl e, doc)
      | None \<Rightarrow>
         if paragraphIndex start = paragraphIndex end
         then (Inr (), applyStyleToSingleParagraph (paragraphIndex start) (offset start)
                         (offset end) st doc)
         else (Inr (), applyStyleAcrossParagraphs seg start end st doc))"

subsection \<open>copyText\<close>

fun extractLoop :: "int \<Rightarrow> int \<Rightarrow> int \<Rightarrow> Run list \<Rightarrow> Run list" where
  "extractLoop startOffset endOffset currentOffset [] = []"
| "extractLoop startOffset endOffset currentOffset (r # rs) =
     (let runStart = max 0 (startOffset - currentOffset);
          runEnd = min (length_r r) (endOffset - currentOffset);
          pushed = (if runEnd > runStart
                    then [\<lparr>length_r = runEnd - runStart, style = style r\<rparr>] else [])
      in pushed @ extractLoop startOffset endOffset (currentOffset + length_r r) rs)"

definition extractTextRange ::
  "segmenter \<Rightarrow> Paragraph \<Rightarrow> int \<Rightarrow> int \<Rightarrow> clipboard_paragraph" where
  "extractTextRange seg para startOffset endOffset =
     (let t = trim (slice (text_p para) startOffset (Some endOffset));
          startRunIndex = runIndex (findRunAtOffset para startOffset);
          endRunIndex = runIndex (findRunAtOffset para endOffset)
      in if startRunIndex = -1
         then \<lparr>text_c = t,
               runs_c = [\<lparr>length_r = getGraphemeCount seg t,
                          style = (case runs para of [] \<Rightarrow> [] | r # _ \<Rightarrow> style r)\<rparr>]\<rparr>
         else
           let upper = (if endRunIndex \<ge> 0 then endRunIndex else int (length (runs para)) - 1)
           in \<lparr>text_c = t,
               runs_c = extractLoop startOffset endOffset 0
                          (take (nat (upper + 1 - startRunIndex))
                             (drop (nat startRunIndex) (runs para)))\<rparr>)"

definition copyText :: "segmenter \<Rightarrow> Position \<Rightarrow> Position \<Rightarrow> Document \<Rightarrow> clipboardData outcome" where
  "copyText seg start end doc =
     (case validateRange seg doc start end of
        Some e \<Rightarrow> (Inl e, doc)
      | None \<Rightarrow>
         if paragraphIndex start = paragraphIndex end
         then (Inr [extractTextRange seg (paragraphs doc ! nat (paragraphIndex start))
                      (offset start) (offset end)], doc)
         else
           let firstParagraph = paragraphs doc ! nat (paragraphIndex start);
               lastParagraph = paragraphs doc ! nat (paragraphIndex end)
           in (Inr ([extractTextRange seg firstParagraph (offset start)
                       (getGraphemeCount seg (text_p firstParagraph))] @
                    map (\<lambda>i. \<lparr>text_c = text_p (paragraphs doc ! nat i),
                               runs_c = runs (paragraphs doc ! nat i)\<rparr>)
                      [paragraphIndex start + 1 .. paragraphIndex end - 1] @
                    [extractTextRange seg lastParagraph 0 (offset end)]), doc))"

subsection \<open>pasteText\<close>

text \<open>
  In \<open>DocumentModel.ts\<close> the method \<open>pasteText\<close> is commented out. The embedding takes
  it, with its helpers \<open>updateRunsForSplit\<close>, \<open>insertRunsAtOffset\<close> and
  \<open>updateRunsForPaste\<close>, from the other variant of the class, where it is live. There it
  checks nothing: a paragraph index outside the document reads \<open>undefined\<close>, whose
  \<open>text\<close> property throws a \<open>TypeError\<close>; any offset is given to \<open>slice\<close>. The runs
  it leaves in the document are the clipboard's own objects; the embedding keeps their
  values.
\<close>

fun scanLoop :: "Run list \<Rightarrow> int \<Rightarrow> int \<Rightarrow> nat \<Rightarrow> nat \<times> int" where
  "scanLoop [] off currentOffset i = (i, currentOffset)"
| "scanLoop (r # rs) off currentOffset i =
     (if currentOffset + length_r r \<le> off
      then scanLoop rs off (currentOffset + length_r r) (i + 1)
      else (i, currentOffset))"

definition updateRunsForSplit :: "Paragraph \<Rightarrow> int \<Rightarrow> Paragraph" where
  "updateRunsForSplit para splitPoint =
     (case scanLoop (runs para) splitPoint 0 0 of
        (runIdx, currentOffset) \<Rightarrow>
          if runIdx < length (runs para)
          then let r = runs para ! runIdx;
                   runSplitPoint = splitPoint - currentOffset
               in if runSplitPoint > 0 \<and> runSplitPoint < length_r r
                  then para\<lparr>runs := splice (runs para) (int runIdx) (Some 1)
                         [\<lparr>length_r = runSplitPoint, style = style r\<rparr>,
                          \<lparr>length_r = length_r r - runSplitPoint, style = style r\<rparr>]\<rparr>
                  else para
          else para)"

definition insertRunsAtOffset :: "Paragraph \<Rightarrow> int \<Rightarrow> Run list \<Rightarrow> Paragraph" where
  "insertRunsAtOffset para off runsToInsert =
     (case scanLoop (runs para) off 0 0 of
        (runIdx, currentOffset) \<Rightarrow>
          let before = take runIdx (runs para);
              newRuns =
                (if runIdx < length (runs para)
                 then let currentRun = runs para ! runIdx;
                          splitPoint = off - currentOffset
                      in before @
                         (if splitPoint > 0
                          then [\<lparr>length_r = splitPoint, style = style currentRun\<rparr>] else []) @
                         runsToInsert @
                         (if splitPoint < length_r currentRun
                          then [\<lparr>length_r = length_r currentRun - splitPoint,
                                  style = style currentRun\<rparr>] else []) @
                         slice (runs para) (int runIdx + 1) None
                 else before @ runsToInsert)
          in para\<lparr>runs := mergeAdjacentRuns newRuns\<rparr>)"

definition updateRunsForPaste :: "Paragraph \<Rightarrow> int \<Rightarrow> Run list \<Rightarrow> Paragraph" where
  "updateRunsForPaste para off pastedRuns =
     insertRunsAtOffset (updateRunsForSplit para off) off pastedRuns"

definition pasteText :: "Position \<Rightarrow> clipboardData \<Rightarrow> Document \<Rightarrow> unit outcome" where
  "pasteText pos clip doc =
     (if length clip = 0 then (Inr (), doc)
      else if paragraphIndex pos < 0 \<or> paragraphIndex pos \<ge> int (length (paragraphs doc))
      then (Inl TypeError, doc)
      else
        let idx = nat (paragraphIndex pos);
            para = paragraphs doc ! idx;
            beforeText = slice (text_p para) 0 (Some (offset pos));
            afterText = slice (text_p para) (offset pos) None
        in if length clip = 1
           then let pasteContent = hd clip;
                    para1 = para\<lparr>text_p := beforeText @ text_c pasteContent @ afterText\<rparr>
                in (Inr (), doc\<lparr>paragraphs := (paragraphs doc)
                       [idx := insertRunsAtOffset para1 (offset pos) (runs_c pasteContent)]\<rparr>)
           else
             let current1 = updateRunsForPaste (para\<lparr>text_p := beforeText @ text_c (hd clip)\<rparr>)
                              (offset pos) (runs_c (hd clip));
                 middle = map (\<lambda>c. \<lparr>text_p = text_c c, runs = runs_c c, yOffset = 0\<rparr>)
                            (butlast (tl clip));
                 lastClipboardParagraph = last clip;
                 lastOne = \<lparr>text_p = text_c lastClipboardParagraph @ afterText,
                            runs = runs_c lastClipboardParagraph, yOffset = 0\<rparr>
             in (Inr (), doc\<lparr>paragraphs :=
                   splice ((paragraphs doc)[idx := current1]) (paragraphIndex pos + 1) (Some 0)
                     (middle @ [lastOne])\<rparr>))"

section \<open>Specification-side notions and fixtures\<close>

text \<open>\<open>cumulative rs i\<close> is the offset at which run \<open>i\<close> starts.\<close>

definition cumulative :: "Run list \<Rightarrow> nat \<Rightarrow> int" where
  "cumulative rs i = sum_list (map length_r (take i rs))"

text \<open>The fixture of the repository's test suite, and the styles it uses.\<close>

definition fontSize :: "int \<Rightarrow> style" where
  "fontSize n = [(''fontSize'', JNum n)]"

definition firstParagraph :: Paragraph where
  "firstParagraph =
     \<lparr>text_p = utf16 ''First paragraph'',
      runs = [\<lparr>length_r = 15, style = fontSize 16\<rparr>], yOffset = 0\<rparr>"

definition testDoc :: Document where
  "testDoc = \<lparr>paragraphs = [firstParagraph]\<rparr>"

definition at :: "int \<Rightarrow> int \<Rightarrow> Position" where
  "at i off = \<lparr>paragraphIndex = i, offset = off\<rparr>"

text \<open>The texts of the examples are in normalization form C already.\<close>

definition nfcId :: normalizer where
  "nfcId t = t"

text \<open>What \<open>applyStyle\<close> is to leave in paragraph \<open>j\<close> of a range from \<open>start\<close> to
  \<open>end\<close>: the patch applied from the start offset in the first paragraph (from 0 in the
  others) up to the end offset in the last paragraph (up to the grapheme count in the
  others).\<close>

definition styledParagraph ::
  "segmenter \<Rightarrow> Position \<Rightarrow> Position \<Rightarrow> style \<Rightarrow> Document \<Rightarrow> nat \<Rightarrow> Paragraph" where
  "styledParagraph seg start end st doc j =
     (let para = paragraphs doc ! j;
          a = (if int j = paragraphIndex start then offset start else 0);
          b = (if int j = paragraphIndex end then offset end
               else getGraphemeCount seg (text_p para))
      in para\<lparr>runs := applyStyleToRuns a b st (runs para)\<rparr>)"

text \<open>A document of three paragraphs in one style.\<close>

definition plainParagraph :: "string \<Rightarrow> Paragraph" where
  "plainParagraph s =
     \<lparr>text_p = utf16 s, runs = [\<lparr>length_r = int (length s), style = fontSize 16\<rparr>],
      yOffset = 0\<rparr>"

definition threeDoc :: Document where
  "threeDoc = \<lparr>paragraphs = [plainParagraph ''First paragraph'',
                             plainParagraph ''Second paragraph'',
                             plainParagraph ''Third'']\<rparr>"

text \<open>A run list in which \<open>mergeAdjacentRuns\<close> finds nothing to merge: no two
  neighbours whose styles \<open>areStylesEqual\<close> takes for equal.\<close>

fun noAdjacentEqual :: "Run list \<Rightarrow> bool" where
  "noAdjacentEqual (r1 # r2 # rs) \<longleftrightarrow>
     \<not> areStylesEqual (style r1) (style r2) \<and> noAdjacentEqual (r2 # rs)"
| "noAdjacentEqual rs \<longleftrightarrow> True"

text \<open>The loop of \<open>mergeAdjacentRuns\<close> seen from its last merged run: \<open>mergeFrom m rs\<close> is
  what the loop appends to the runs before \<open>m\<close> when \<open>m\<close> is the last merged run and
  \<open>rs\<close> are the runs still to come.\<close>

fun mergeFrom :: "Run \<Rightarrow> Run list \<Rightarrow> Run list" where
  "mergeFrom m [] = [m]"
| "mergeFrom m (r # rs) =
     (if areStylesEqual (style m) (style r)
      then mergeFrom (m\<lparr>length_r := length_r m + length_r r\<rparr>) rs
      else m # mergeFrom r rs)"

text \<open>Invariants I1 and I2 of a paragraph: the run lengths sum to the number of clusters
  of the text, and no run has length 0.\<close>

definition runsMatchText :: "segmenter \<Rightarrow> Paragraph \<Rightarrow> bool" where
  "runsMatchText seg para \<longleftrightarrow>
     sum_list (map length_r (runs para)) = getGraphemeCount seg (text_p para) \<and>
     list_all (\<lambda>r. length_r r \<noteq> 0) (runs para)"

text \<open>The text that the repository's test of a multi-paragraph insertion inserts.\<close>

definition splitText :: jstring where
  "splitText = utf16 '' split'' @ [newline] @ utf16 ''New paragraph'' @ [newline] @ utf16 ''Third''"

definition clipX :: clipboardData where
  "clipX = [\<lparr>text_c = utf16 ''x'', runs_c = [\<lparr>length_r = 1, style = fontSize 16\<rparr>]\<rparr>]"

text \<open>The grapheme-range slice of the specification: the concatenation of the clusters
  with indices from \<open>a\<close> up to \<open>b\<close>, \<open>b\<close> excluded.\<close>

definition clusterRange :: "segmenter \<Rightarrow> jstring \<Rightarrow> int \<Rightarrow> int \<Rightarrow> jstring" where
  "clusterRange seg t a b = concat (map ((!) (seg t)) [nat a ..< nat b])"

text \<open>A text whose clusters are its code units, one by one: there, an offset counted in
  clusters and an offset counted in code units are the same.\<close>

definition singleUnits :: "segmenter \<Rightarrow> jstring \<Rightarrow> bool" where
  "singleUnits seg t \<longleftrightarrow> seg t = map (\<lambda>c. [c]) t"

text \<open>The text of clipboard paragraph \<open>k\<close> of a copy from \<open>start\<close> to \<open>end\<close>: the trimmed
  slice for the paragraph at either end of the range, the whole text for a paragraph
  strictly between.\<close>

definition copiedText :: "segmenter \<Rightarrow> Position \<Rightarrow> Position \<Rightarrow> Document \<Rightarrow> nat \<Rightarrow> jstring" where
  "copiedText seg start end doc k =
     (let j = nat (paragraphIndex start) + k;
          t = text_p (paragraphs doc ! j);
          a = (if k = 0 then offset start else 0);
          b = (if int j = paragraphIndex end then offset end else getGraphemeCount seg t)
      in if k = 0 \<or> int j = paragraphIndex end then trim (clusterRange seg t a b) else t)"

text \<open>The round trip of the specification: copy the range, delete it, paste the clipboard
  at its start.\<close>

definition roundTrip :: "segmenter \<Rightarrow> Position \<Rightarrow> Position \<Rightarrow> Document \<Rightarrow> unit outcome" where
  "roundTrip seg a b doc =
     (case copyText seg a b doc of
        (Inl e, d) \<Rightarrow> (Inl e, d)
      | (Inr clip, d0) \<Rightarrow>
         (case deleteText seg a b d0 of
            (Inl e, d1) \<Rightarrow> (Inl e, d1)
          | (Inr u, d1) \<Rightarrow> pasteText a clip d1))"

text \<open>The slice that \<open>copiedText\<close> trims, for the paragraph at either end of the range.\<close>

definition cutText :: "segmenter \<Rightarrow> Position \<Rightarrow> Position \<Rightarrow> Document \<Rightarrow> nat \<Rightarrow> jstring" where
  "cutText seg start end doc k =
     (let j = nat (paragraphIndex start) + k;
          t = text_p (paragraphs doc ! j);
          a = (if k = 0 then offset start else 0);
          b = (if int j = paragraphIndex end then offset end else getGraphemeCount seg t)
      in clusterRange seg t a b)"

text \<open>
  The style of every position of a paragraph, run by run; the run-length encoding of such
  a list of styles; and a patch applied to the positions from \<open>a\<close> up to \<open>b\<close> of it, the
  first position of the list being \<open>off\<close>.
\<close>

definition expand :: "Run list \<Rightarrow> style list" where
  "expand rs = concat (map (\<lambda>r. replicate (nat (length_r r)) (style r)) rs)"

fun compress :: "style list \<Rightarrow> Run list" where
  "compress [] = []"
| "compress (x # xs) =
     (case compress xs of
        [] \<Rightarrow> [\<lparr>length_r = 1, style = x\<rparr>]
      | r # rest \<Rightarrow>
          if style r = x then r\<lparr>length_r := length_r r + 1\<rparr> # rest
          else \<lparr>length_r = 1, style = x\<rparr> # r # rest)"

fun patchFrom :: "int \<Rightarrow> int \<Rightarrow> style \<Rightarrow> int \<Rightarrow> style list \<Rightarrow> style list" where
  "patchFrom a b st off [] = []"
| "patchFrom a b st off (x # xs) =
     (if a \<le> off \<and> off < b then spread x st else x) # patchFrom a b st (off + 1) xs"

text \<open>A run list in which every run has a positive length and no two neighbours have
  styles that \<open>areStylesEqual\<close> takes for equal.\<close>

definition wellFormedRuns :: "Run list \<Rightarrow> bool" where
  "wellFormedRuns rs \<longleftrightarrow> list_all (\<lambda>r. 0 < length_r r) rs \<and> noAdjacentEqual rs"

text \<open>The document that the repository's test of an insertion at the end of the paragraph
  expects: the inserted text is a second run in the style of the first.\<close>

definition appendedDoc :: Document where
  "appendedDoc =
     \<lparr>paragraphs =
        [\<lparr>text_p = utf16 ''First paragraph end'',
          runs = [\<lparr>length_r = 15, style = fontSize 16\<rparr>, \<lparr>length_r = 4, style = fontSize 16\<rparr>],
          yOffset = 0\<rparr>]\<rparr>"

text \<open>
  Structural equality of JSON values, the equality of the specification's styles: two
  objects are equal when every field of either is a field of the other with a
  structurally equal value, in whatever order the fields are listed (an object lists
  each of its keys once).
\<close>

fun structurallyEqual :: "jvalue \<Rightarrow> jvalue \<Rightarrow> bool" where
  "structurallyEqual (JNum a) (JNum b) \<longleftrightarrow> a = b"
| "structurallyEqual (JStr a) (JStr b) \<longleftrightarrow> a = b"
| "structurallyEqual (JBool a) (JBool b) \<longleftrightarrow> a = b"
| "structurallyEqual (JObj xs) (JObj ys) \<longleftrightarrow>
     (\<forall>(k, v) \<in> set xs. \<exists>(k', w) \<in> set ys. k = k' \<and> structurallyEqual v w) \<and>
     (\<forall>(k', w) \<in> set ys. \<exists>(k, v) \<in> set xs. k = k' \<and> structurallyEqual v w)"
| "structurallyEqual _ _ \<longleftrightarrow> False"

definition sameStyle :: "style \<Rightarrow> style \<Rightarrow> bool" where
  "sameStyle a b \<longleftrightarrow> structurallyEqual (JObj a) (JObj b)"

text \<open>Invariant I3 of a run list: no two neighbours with structurally equal styles.\<close>

fun noAdjacentSame :: "Run list \<Rightarrow> bool" where
  "noAdjacentSame (r1 # r2 # rs) \<longleftrightarrow>
     \<not> sameStyle (style r1) (style r2) \<and> noAdjacentSame (r2 # rs)"
| "noAdjacentSame rs \<longleftrightarrow> True"

text \<open>On a list of styles the comparison of \<open>areStylesEqual\<close> agrees with structural
  equality when any two structurally equal styles of the list are equal for
  \<open>areStylesEqual\<close> too, that is, list their fields in the same order.\<close>

definition keyOrderAgrees :: "style list \<Rightarrow> bool" where
  "keyOrderAgrees ss \<longleftrightarrow> (\<forall>a \<in> set ss. \<forall>b \<in> set ss. sameStyle a b \<longrightarrow> areStylesEqual a b)"

text \<open>The styles that a patch can leave in a paragraph: those of its runs, and those with
  the patch merged in.\<close>

definition patchedStyles :: "style \<Rightarrow> Run list \<Rightarrow> style list" where
  "patchedStyles st rs = map style rs @ map (\<lambda>r. spread (style r) st) rs"

text \<open>A paragraph of two runs with one field each, and a patch with the two fields.\<close>

definition mixedDoc :: Document where
  "mixedDoc =
     \<lparr>paragraphs =
        [\<lparr>text_p = utf16 ''First paragraph'',
          runs = [\<lparr>length_r = 5, style = [(''fontSize'', JNum 16)]\<rparr>,
                  \<lparr>length_r = 10, style = [(''letterSpacing'', JNum 2)]\<rparr>],
          yOffset = 0\<rparr>]\<rparr>"

definition bothFields :: style where
  "bothFields = [(''fontSize'', JNum 16), (''letterSpacing'', JNum 2)]"


text \<open>The part of a range from \<open>start\<close> to \<open>end\<close> that lies in paragraph \<open>j\<close>: where it
  starts and where it ends there.\<close>

definition startIn :: "Position \<Rightarrow> nat \<Rightarrow> int" where
  "startIn start j = (if int j = paragraphIndex start then offset start else 0)"

definition endIn :: "segmenter \<Rightarrow> Document \<Rightarrow> Position \<Rightarrow> nat \<Rightarrow> int" where
  "endIn seg doc end j =
     (if int j = paragraphIndex end then offset end
      else getGraphemeCount seg (text_p (paragraphs doc ! j)))"

section \<open>Run lookup\<close>

lemma cumulative_0: "cumulative rs 0 = 0"
  by (simp add: cumulative_def)

lemma cumulative_Cons_Suc: "cumulative (r # rs) (Suc i) = length_r r + cumulative rs i"
  by (simp add: cumulative_def)

lemma cumulative_step:
  assumes "\<forall>r\<in>set rs. 0 \<le> length_r r"
  shows "cumulative rs i \<le> cumulative rs (Suc i)"
  using assms
proof (induction rs arbitrary: i)
  case Nil
  then show ?case by (simp add: cumulative_def)
next
  case (Cons r rs)
  then show ?case by (cases i) (simp_all add: cumulative_def)
qed

lemma cumulative_mono:
  assumes "\<forall>r\<in>set rs. 0 \<le> length_r r" and "i \<le> j"
  shows "cumulative rs i \<le> cumulative rs j"
  using assms(2)
proof (induction j)
  case 0
  then show ?case by simp
next
  case (Suc j)
  show ?case
  proof (cases "i = Suc j")
    case True
    then show ?thesis by simp
  next
    case False
    with Suc have "cumulative rs i \<le> cumulative rs j" by simp
    also have "\<dots> \<le> cumulative rs (Suc j)" using assms(1) by (rule cumulative_step)
    finally show ?thesis .
  qed
qed

lemma findRunLoop_sentinel:
  assumes "\<forall>r\<in>set rs. 0 \<le> length_r r" and "cur + sum_list (map length_r rs) \<le> off"
  shows "findRunLoop rs off cur i = \<lparr>runIndex = -1, offsetInRun = 0\<rparr>"
  using assms
proof (induction rs arbitrary: cur i)
  case Nil
  then show ?case by simp
next
  case (Cons r rs)
  from Cons.prems have nn: "0 \<le> sum_list (map length_r rs)"
    by (auto intro!: sum_list_nonneg)
  with Cons.prems have "\<not> cur + length_r r > off" by simp
  moreover have "findRunLoop rs off (cur + length_r r) (i + 1) = \<lparr>runIndex = -1, offsetInRun = 0\<rparr>"
    using Cons.prems by (intro Cons.IH) (simp_all add: add.assoc)
  ultimately show ?case by simp
qed

lemma findRunLoop_found:
  assumes "cur \<le> off" and "off < cur + sum_list (map length_r rs)"
  shows "\<exists>k<length rs. findRunLoop rs off cur i =
            \<lparr>runIndex = i + int k, offsetInRun = off - (cur + cumulative rs k)\<rparr> \<and>
          cur + cumulative rs k \<le> off \<and> off < cur + cumulative rs (Suc k)"
  using assms
proof (induction rs arbitrary: cur i)
  case Nil
  then show ?case by simp
next
  case (Cons r rs)
  show ?case
  proof (cases "cur + length_r r > off")
    case True
    with Cons.prems have "findRunLoop (r # rs) off cur i =
        \<lparr>runIndex = i + int 0, offsetInRun = off - (cur + cumulative (r # rs) 0)\<rparr> \<and>
        cur + cumulative (r # rs) 0 \<le> off \<and> off < cur + cumulative (r # rs) (Suc 0)"
      by (simp add: cumulative_def)
    then show ?thesis by blast
  next
    case False
    then have le: "cur + length_r r \<le> off" by simp
    from Cons.prems have lt: "off < (cur + length_r r) + sum_list (map length_r rs)" by simp
    from Cons.IH[OF le lt, of "i + 1"] obtain k where k: "k < length rs"
      "findRunLoop rs off (cur + length_r r) (i + 1) =
         \<lparr>runIndex = i + 1 + int k, offsetInRun = off - (cur + length_r r + cumulative rs k)\<rparr>"
      "cur + length_r r + cumulative rs k \<le> off" "off < cur + length_r r + cumulative rs (Suc k)"
      by blast
    have "findRunLoop (r # rs) off cur i =
        \<lparr>runIndex = i + int (Suc k), offsetInRun = off - (cur + cumulative (r # rs) (Suc k))\<rparr>"
      using False k(2) by (simp add: cumulative_Cons_Suc add.assoc)
    moreover have "cur + cumulative (r # rs) (Suc k) \<le> off"
      using k(3) by (simp add: cumulative_Cons_Suc add.assoc)
    moreover have "off < cur + cumulative (r # rs) (Suc (Suc k))"
      using k(4) by (simp add: cumulative_Cons_Suc add.assoc)
    moreover have "Suc k < length (r # rs)" using k(1) by simp
    ultimately show ?thesis by blast
  qed
qed

text \<open>
  Claim C6. In a paragraph whose run lengths are non-negative and sum to the grapheme count
  of its text, for an offset between 0 and that count: at the count itself
  \<open>findRunAtOffset\<close> returns the sentinel \<open>(-1, 0)\<close>; below it, it returns the one run
  \<open>i\<close> with \<open>cumulative i \<le> offset < cumulative (i + 1)\<close>, and the offset within that run
  is \<open>offset - cumulative i\<close>.
\<close>

theorem findRunAtOffset_rule:
  assumes nonneg: "\<forall>r\<in>set (runs para). 0 \<le> length_r r"
    and total: "sum_list (map length_r (runs para)) = getGraphemeCount seg (text_p para)"
    and lo: "0 \<le> off" and hi: "off \<le> getGraphemeCount seg (text_p para)"
  shows "if off = getGraphemeCount seg (text_p para)
         then findRunAtOffset para off = \<lparr>runIndex = -1, offsetInRun = 0\<rparr>
         else \<exists>i<length (runs para).
                findRunAtOffset para off =
                  \<lparr>runIndex = int i, offsetInRun = off - cumulative (runs para) i\<rparr> \<and>
                cumulative (runs para) i \<le> off \<and> off < cumulative (runs para) (Suc i) \<and>
                (\<forall>j<length (runs para).
                   cumulative (runs para) j \<le> off \<and> off < cumulative (runs para) (Suc j)
                   \<longrightarrow> j = i)"
proof (cases "off = getGraphemeCount seg (text_p para)")
  case True
  have "findRunLoop (runs para) off 0 0 = \<lparr>runIndex = -1, offsetInRun = 0\<rparr>"
    using nonneg total True by (intro findRunLoop_sentinel) simp_all
  with True show ?thesis by (simp add: findRunAtOffset_def)
next
  case False
  with hi total have lt: "off < 0 + sum_list (map length_r (runs para))" by simp
  from findRunLoop_found[OF _ lt, of 0] lo obtain i where i: "i < length (runs para)"
    "findRunLoop (runs para) off 0 0 =
       \<lparr>runIndex = int i, offsetInRun = off - cumulative (runs para) i\<rparr>"
    "cumulative (runs para) i \<le> off" "off < cumulative (runs para) (Suc i)"
    by auto
  have uniq: "j = i" if j: "cumulative (runs para) j \<le> off" "off < cumulative (runs para) (Suc j)" for j
  proof (rule ccontr)
    assume "j \<noteq> i"
    then consider "j < i" | "i < j" by linarith
    then show False
    proof cases
      case 1
      then have "cumulative (runs para) (Suc j) \<le> cumulative (runs para) i"
        using cumulative_mono[OF nonneg, of "Suc j" i] by simp
      with j(2) i(3) show False by simp
    next
      case 2
      then have "cumulative (runs para) (Suc i) \<le> cumulative (runs para) j"
        using cumulative_mono[OF nonneg, of "Suc i" j] by simp
      with j(1) i(4) show False by simp
    qed
  qed
  have "findRunAtOffset para off =
          \<lparr>runIndex = int i, offsetInRun = off - cumulative (runs para) i\<rparr>"
    using i(2) by (simp add: findRunAtOffset_def)
  with i(1,3,4) uniq have "\<exists>i<length (runs para).
      findRunAtOffset para off =
        \<lparr>runIndex = int i, offsetInRun = off - cumulative (runs para) i\<rparr> \<and>
      cumulative (runs para) i \<le> off \<and> off < cumulative (runs para) (Suc i) \<and>
      (\<forall>j<length (runs para).
         cumulative (runs para) j \<le> off \<and> off < cumulative (runs para) (Suc j)
         \<longrightarrow> j = i)"
    by blast
  with False show ?thesis by simp
qed

theorem findRunAtOffset_rule_witness:
  "list_all (\<lambda>r. 0 \<le> length_r r) (runs firstParagraph) \<and>
   sum_list (map length_r (runs firstParagraph)) =
     getGraphemeCount pairSegmenter (text_p firstParagraph) \<and>
   findRunAtOffset firstParagraph 15 = \<lparr>runIndex = -1, offsetInRun = 0\<rparr> \<and>
   findRunAtOffset firstParagraph 7 = \<lparr>runIndex = 0, offsetInRun = 7\<rparr>"
  using findRunAtOffset_rule [of firstParagraph pairSegmenter 15]
        findRunAtOffset_rule [of firstParagraph pairSegmenter 7]
  by (simp add: firstParagraph_def fontSize_def utf16_def getGraphemeCount_def
        isHighSurrogate_def findRunAtOffset_def cumulative_def)


section \<open>Inserting an emoji\<close>

lemma firstParagraph_slices:
  "slice (utf16 ''First paragraph'') 0 (Some 5) = utf16 ''First''"
  "slice (utf16 ''First paragraph'') 5 None = utf16 '' paragraph''"
  by (simp_all add: slice_def relIndex_def utf16_def)


text \<open>The insertion up to its last step: the text is cut at code unit 5, the run is split
  around a run that is as long as the segmenter says the inserted text is, and
  \<open>updateRunLengths\<close> has the last word.\<close>

lemma insertText_into_firstParagraph:
  assumes valid: "validatePosition seg testDoc (at 0 5) = None"
    and line: "newline \<notin> set (nfc e)"
    and other: "st \<noteq> fontSize 16"
  shows "insertText seg nfc (at 0 5) e st testDoc =
    (Inr (), \<lparr>paragraphs =
       [updateRunLengths seg
         \<lparr>text_p = utf16 ''First'' @ nfc e @ utf16 '' paragraph'',
          runs = [\<lparr>length_r = 5, style = fontSize 16\<rparr>,
                  \<lparr>length_r = getGraphemeCount seg (nfc e), style = st\<rparr>,
                  \<lparr>length_r = 10, style = fontSize 16\<rparr>],
          yOffset = 0\<rparr>]\<rparr>)"
  using valid line other
  apply (simp add: insertText_def Let_def)
  apply (simp add: testDoc_def firstParagraph_def at_def firstParagraph_slices
      findRunAtOffset_def insertTextIntoRun_def areStylesEqual_def splice_def relIndex_def
      Let_def)
  done



text \<open>
  An inserted text that is one cluster alone and joins the cluster before it in the
  paragraph, as an emoji modifier does after a letter, leaves the text with 15 clusters:
  \<open>updateRunLengths\<close> then takes the cluster away from the last run.
\<close>

lemma insertText_emoji_joining:
  assumes valid: "validatePosition seg testDoc (at 0 5) = None"
    and line: "newline \<notin> set (nfc e)"
    and other: "st \<noteq> fontSize 16"
    and alone: "getGraphemeCount seg (nfc e) = 1"
    and joined: "getGraphemeCount seg (utf16 ''First'' @ nfc e @ utf16 '' paragraph'') = 15"
  shows "runs (hd (paragraphs (snd (insertText seg nfc (at 0 5) e st testDoc)))) =
           [\<lparr>length_r = 5, style = fontSize 16\<rparr>,
            \<lparr>length_r = 1, style = st\<rparr>,
            \<lparr>length_r = 9, style = fontSize 16\<rparr>]"
  unfolding insertText_into_firstParagraph[of seg nfc e st, OF valid line other]
  using alone joined by (simp add: updateRunLengths_def)


section \<open>Slicing by clusters\<close>

lemma take_drop_nths:
  assumes "b \<le> length xs"
  shows "take (b - a) (drop a xs) = map ((!) xs) [a..<b]"
proof (cases "a \<le> b")
  case True
  have "take (b - a) [a..<length xs] = [a..<b]"
    using assms True by (simp add: take_upt)
  then have "map ((!) xs) [a..<b] = map ((!) xs) (take (b - a) (drop a [0..<length xs]))"
    by simp
  also have "\<dots> = take (b - a) (drop a (map ((!) xs) [0..<length xs]))"
    by (simp only: take_map drop_map)
  also have "\<dots> = take (b - a) (drop a xs)"
    by (simp only: map_nth)
  finally show ?thesis by simp
next
  case False
  then show ?thesis by simp
qed

lemma relIndex_le: "relIndex i n \<le> n"
  by (auto simp: relIndex_def)

lemma slice_nths:
  "slice xs start end_opt =
     map ((!) xs) [relIndex start (length xs) ..<
                   (case end_opt of None \<Rightarrow> length xs | Some j \<Rightarrow> relIndex j (length xs))]"
  unfolding slice_def Let_def
  by (rule take_drop_nths) (simp add: relIndex_le split: option.split)





section \<open>What applyStyle does to each paragraph\<close>

lemma validatePosition_None:
  "validatePosition seg doc pos = None \<longleftrightarrow>
     0 \<le> paragraphIndex pos \<and> paragraphIndex pos < int (length (paragraphs doc)) \<and>
     0 \<le> offset pos \<and>
     offset pos \<le> getGraphemeCount seg (text_p (paragraphs doc ! nat (paragraphIndex pos)))"
  by (auto simp: validatePosition_def Let_def)

lemma validateRange_None:
  "validateRange seg doc start end = None \<longleftrightarrow>
     validatePosition seg doc start = None \<and> validatePosition seg doc end = None \<and>
     (paragraphIndex start < paragraphIndex end \<or>
      paragraphIndex start = paragraphIndex end \<and> offset start \<le> offset end)"
  by (auto simp: validateRange_def split: option.splits)

lemma paragraphs_applyStyleToSingleParagraph:
  "paragraphs (applyStyleToSingleParagraph i a b st doc) =
     (paragraphs doc)[nat i := (paragraphs doc ! nat i)
        \<lparr>runs := applyStyleToRuns a b st (runs (paragraphs doc ! nat i))\<rparr>]"
  by (simp add: applyStyleToSingleParagraph_def Let_def)

lemma applyMiddle_nth:
  assumes "distinct js" and "\<forall>i\<in>set js. 0 \<le> i"
  shows "length (paragraphs (applyMiddle seg st js doc)) = length (paragraphs doc) \<and>
         (\<forall>j<length (paragraphs doc).
            paragraphs (applyMiddle seg st js doc) ! j =
              (if int j \<in> set js
               then (paragraphs doc ! j)\<lparr>runs := applyStyleToRuns 0
                      (getGraphemeCount seg (text_p (paragraphs doc ! j))) st
                      (runs (paragraphs doc ! j))\<rparr>
               else paragraphs doc ! j))"
  using assms
proof (induction js arbitrary: doc)
  case Nil
  then show ?case by simp
next
  case (Cons i js)
  let ?doc' = "applyStyleToSingleParagraph i 0
                 (getGraphemeCount seg (text_p (paragraphs doc ! nat i))) st doc"
  have len: "length (paragraphs ?doc') = length (paragraphs doc)"
    by (simp add: paragraphs_applyStyleToSingleParagraph)
  from Cons.prems have d: "distinct js" "\<forall>i\<in>set js. 0 \<le> i" "i \<notin> set js" "0 \<le> i"
    by simp_all
  note IH = Cons.IH[OF d(1,2), of ?doc']
  have "paragraphs (applyMiddle seg st (i # js) doc) ! j =
          (if int j \<in> set (i # js)
           then (paragraphs doc ! j)\<lparr>runs := applyStyleToRuns 0
                  (getGraphemeCount seg (text_p (paragraphs doc ! j))) st
                  (runs (paragraphs doc ! j))\<rparr>
           else paragraphs doc ! j)" if j: "j < length (paragraphs doc)" for j
  proof (cases "int j = i")
    case True
    then have nj: "nat i = j" by simp
    from True d(3) have "int j \<notin> set js" by simp
    with IH j len have "paragraphs (applyMiddle seg st js ?doc') ! j = paragraphs ?doc' ! j"
      by simp
    also have "\<dots> = (paragraphs doc ! j)\<lparr>runs := applyStyleToRuns 0
                  (getGraphemeCount seg (text_p (paragraphs doc ! j))) st
                  (runs (paragraphs doc ! j))\<rparr>"
      using j nj by (simp add: paragraphs_applyStyleToSingleParagraph)
    finally show ?thesis using True by simp
  next
    case False
    with d(4) have ne: "nat i \<noteq> j" by auto
    then have same: "paragraphs ?doc' ! j = paragraphs doc ! j"
      by (simp add: paragraphs_applyStyleToSingleParagraph)
    from IH j len have "paragraphs (applyMiddle seg st js ?doc') ! j =
          (if int j \<in> set js
           then (paragraphs ?doc' ! j)\<lparr>runs := applyStyleToRuns 0
                  (getGraphemeCount seg (text_p (paragraphs ?doc' ! j))) st
                  (runs (paragraphs ?doc' ! j))\<rparr>
           else paragraphs ?doc' ! j)"
      by simp
    with same False show ?thesis by simp
  qed
  moreover have "length (paragraphs (applyMiddle seg st (i # js) doc)) = length (paragraphs doc)"
    using IH len by simp
  ultimately show ?case by blast
qed

lemma applyStyle_ok:
  assumes "validateRange seg doc start end = None"
  shows "fst (applyStyle seg start end st doc) = Inr ()"
  using assms by (simp add: applyStyle_def)

lemma applyStyle_nth:
  assumes valid: "validateRange seg doc start end = None"
  shows "length (paragraphs (snd (applyStyle seg start end st doc))) = length (paragraphs doc) \<and>
         (\<forall>j<length (paragraphs doc).
            paragraphs (snd (applyStyle seg start end st doc)) ! j =
              (if paragraphIndex start \<le> int j \<and> int j \<le> paragraphIndex end
               then styledParagraph seg start end st doc j
               else paragraphs doc ! j))"
proof (cases "paragraphIndex start = paragraphIndex end")
  case True
  from valid have s0: "0 \<le> paragraphIndex start"
    by (simp add: validateRange_None validatePosition_None)
  have r: "snd (applyStyle seg start end st doc) =
             applyStyleToSingleParagraph (paragraphIndex start) (offset start) (offset end) st doc"
    using valid True by (simp add: applyStyle_def)
  have "paragraphs (snd (applyStyle seg start end st doc)) ! j =
              (if paragraphIndex start \<le> int j \<and> int j \<le> paragraphIndex end
               then styledParagraph seg start end st doc j
               else paragraphs doc ! j)" if "j < length (paragraphs doc)" for j
  proof (cases "int j = paragraphIndex start")
    case eq: True
    then have "nat (paragraphIndex start) = j" by simp
    then show ?thesis using that True eq
      by (simp add: r paragraphs_applyStyleToSingleParagraph styledParagraph_def Let_def)
  next
    case ne: False
    with s0 have "nat (paragraphIndex start) \<noteq> j" by auto
    moreover from ne True have "\<not> (paragraphIndex start \<le> int j \<and> int j \<le> paragraphIndex end)"
      by linarith
    ultimately show ?thesis
      by (auto simp add: r paragraphs_applyStyleToSingleParagraph)
  qed
  then show ?thesis by (simp add: r paragraphs_applyStyleToSingleParagraph)
next
  case False
  with valid have lt: "paragraphIndex start < paragraphIndex end"
    by (simp add: validateRange_None)
  from valid have s0: "0 \<le> paragraphIndex start"
    and sl: "paragraphIndex start < int (length (paragraphs doc))"
    and el: "paragraphIndex end < int (length (paragraphs doc))"
    by (simp_all add: validateRange_None validatePosition_None)
  let ?s = "paragraphIndex start" and ?e = "paragraphIndex end"
  let ?doc1 = "applyStyleToSingleParagraph ?s (offset start)
                 (getGraphemeCount seg (text_p (paragraphs doc ! nat ?s))) st doc"
  let ?doc2 = "applyMiddle seg st [?s + 1 .. ?e - 1] ?doc1"
  have r: "snd (applyStyle seg start end st doc) =
             applyStyleToSingleParagraph ?e 0 (offset end) st ?doc2"
    using valid False by (simp add: applyStyle_def applyStyleAcrossParagraphs_def Let_def)
  have len1: "length (paragraphs ?doc1) = length (paragraphs doc)"
    by (simp add: paragraphs_applyStyleToSingleParagraph)
  have mid: "length (paragraphs ?doc2) = length (paragraphs ?doc1) \<and>
         (\<forall>j<length (paragraphs ?doc1).
            paragraphs ?doc2 ! j =
              (if int j \<in> set [?s + 1 .. ?e - 1]
               then (paragraphs ?doc1 ! j)\<lparr>runs := applyStyleToRuns 0
                      (getGraphemeCount seg (text_p (paragraphs ?doc1 ! j))) st
                      (runs (paragraphs ?doc1 ! j))\<rparr>
               else paragraphs ?doc1 ! j))"
    using s0 by (intro applyMiddle_nth) auto
  have len2: "length (paragraphs ?doc2) = length (paragraphs doc)"
    using mid len1 by simp
  have "paragraphs (snd (applyStyle seg start end st doc)) ! j =
              (if ?s \<le> int j \<and> int j \<le> ?e
               then styledParagraph seg start end st doc j
               else paragraphs doc ! j)" if j: "j < length (paragraphs doc)" for j
  proof -
    have m: "paragraphs ?doc2 ! j =
              (if int j \<in> set [?s + 1 .. ?e - 1]
               then (paragraphs ?doc1 ! j)\<lparr>runs := applyStyleToRuns 0
                      (getGraphemeCount seg (text_p (paragraphs ?doc1 ! j))) st
                      (runs (paragraphs ?doc1 ! j))\<rparr>
               else paragraphs ?doc1 ! j)"
      using mid j len1 by simp
    consider (first) "int j = ?s" | (last) "int j = ?e" | (middle) "?s < int j" "int j < ?e"
      | (outside) "int j < ?s \<or> ?e < int j"
      by linarith
    then show ?thesis
    proof cases
      case first
      then have nj: "nat ?s = j" "nat ?e \<noteq> j" using lt by arith+
      have "paragraphs ?doc2 ! j = paragraphs ?doc1 ! j"
        using m first by simp
      then show ?thesis using first lt j nj len2
        by (simp add: r paragraphs_applyStyleToSingleParagraph styledParagraph_def Let_def)
    next
      case last
      then have nj: "nat ?e = j" "nat ?s \<noteq> j" using lt s0 by arith+
      have "paragraphs ?doc2 ! j = paragraphs ?doc1 ! j"
        using m last by simp
      also have "\<dots> = paragraphs doc ! j"
        using nj by (simp add: paragraphs_applyStyleToSingleParagraph)
      finally show ?thesis using last lt j nj len2
        by (simp add: r paragraphs_applyStyleToSingleParagraph styledParagraph_def Let_def)
    next
      case middle
      then have nj: "nat ?e \<noteq> j" "nat ?s \<noteq> j" using s0 by arith+
      have same: "paragraphs ?doc1 ! j = paragraphs doc ! j"
        using nj by (simp add: paragraphs_applyStyleToSingleParagraph)
      have "paragraphs ?doc2 ! j = (paragraphs doc ! j)\<lparr>runs := applyStyleToRuns 0
                      (getGraphemeCount seg (text_p (paragraphs doc ! j))) st
                      (runs (paragraphs doc ! j))\<rparr>"
        using m middle same by simp
      then show ?thesis using middle nj
        by (simp add: r paragraphs_applyStyleToSingleParagraph styledParagraph_def Let_def)
    next
      case outside
      then have nj: "nat ?e \<noteq> j" "nat ?s \<noteq> j" using s0 lt by arith+
      have same: "paragraphs ?doc1 ! j = paragraphs doc ! j"
        using nj by (simp add: paragraphs_applyStyleToSingleParagraph)
      have "paragraphs ?doc2 ! j = paragraphs doc ! j"
        using m outside same by auto
      then show ?thesis using outside nj
        by (auto simp add: r paragraphs_applyStyleToSingleParagraph)
    qed
  qed
  then show ?thesis using len2 by (simp add: r paragraphs_applyStyleToSingleParagraph)
qed


section \<open>The frame of applyStyle\<close>

lemma applyStyle_invalid:
  assumes "validateRange seg doc start end = Some err"
  shows "applyStyle seg start end st doc = (Inl err, doc)"
  using assms by (simp add: applyStyle_def)

text \<open>
  Claim C10. \<open>applyStyle\<close> leaves the number of paragraphs, the text and the layout hint
  of every paragraph as they were, and leaves every paragraph before the start paragraph
  or after the end paragraph unchanged altogether: it changes the runs of the addressed
  paragraphs only. (With an invalid range it changes nothing at all.)
\<close>

theorem applyStyle_frame:
  "length (paragraphs (snd (applyStyle seg start end st doc))) = length (paragraphs doc) \<and>
   (\<forall>j<length (paragraphs doc).
      text_p (paragraphs (snd (applyStyle seg start end st doc)) ! j) =
        text_p (paragraphs doc ! j) \<and>
      yOffset (paragraphs (snd (applyStyle seg start end st doc)) ! j) =
        yOffset (paragraphs doc ! j) \<and>
      (int j < paragraphIndex start \<or> paragraphIndex end < int j \<longrightarrow>
         paragraphs (snd (applyStyle seg start end st doc)) ! j = paragraphs doc ! j))"
proof (cases "validateRange seg doc start end")
  case (Some err)
  then show ?thesis by (simp add: applyStyle_invalid)
next
  case None
  note nth = applyStyle_nth[OF None, of st]
  have "text_p (paragraphs (snd (applyStyle seg start end st doc)) ! j) =
          text_p (paragraphs doc ! j) \<and>
        yOffset (paragraphs (snd (applyStyle seg start end st doc)) ! j) =
          yOffset (paragraphs doc ! j) \<and>
        (int j < paragraphIndex start \<or> paragraphIndex end < int j \<longrightarrow>
           paragraphs (snd (applyStyle seg start end st doc)) ! j = paragraphs doc ! j)"
    if j: "j < length (paragraphs doc)" for j
  proof -
    from nth j have eq: "paragraphs (snd (applyStyle seg start end st doc)) ! j =
        (if paragraphIndex start \<le> int j \<and> int j \<le> paragraphIndex end
         then styledParagraph seg start end st doc j else paragraphs doc ! j)"
      by blast
    show ?thesis unfolding eq by (auto simp: styledParagraph_def Let_def)
  qed
  with nth show ?thesis by blast
qed

theorem applyStyle_frame_witness:
  "map text_p (paragraphs (snd (applyStyle pairSegmenter (at 1 2) (at 1 6) (fontSize 24) threeDoc)))
     = map text_p (paragraphs threeDoc) \<and>
   paragraphs (snd (applyStyle pairSegmenter (at 1 2) (at 1 6) (fontSize 24) threeDoc)) ! 0
     = paragraphs threeDoc ! 0 \<and>
   paragraphs (snd (applyStyle pairSegmenter (at 1 2) (at 1 6) (fontSize 24) threeDoc)) ! 2
     = paragraphs threeDoc ! 2 \<and>
   map length_r (runs (paragraphs
      (snd (applyStyle pairSegmenter (at 1 2) (at 1 6) (fontSize 24) threeDoc)) ! 1)) = [2, 4, 10]"
proof -
  let ?d = "snd (applyStyle pairSegmenter (at 1 2) (at 1 6) (fontSize 24) threeDoc)"
  have len: "length (paragraphs threeDoc) = 3" by (simp add: threeDoc_def)
  note f = applyStyle_frame [of pairSegmenter "at 1 2" "at 1 6" "fontSize 24" threeDoc]
  from f len have l: "length (paragraphs ?d) = 3" by simp
  from f len have t: "text_p (paragraphs ?d ! j) = text_p (paragraphs threeDoc ! j)" if "j < 3" for j
    using that by auto
  have "map text_p (paragraphs ?d) = map text_p (paragraphs threeDoc)"
    using l len t by (intro nth_equalityI) simp_all
  moreover have o: "paragraphs ?d ! j = paragraphs threeDoc ! j"
    if "j < 3" "int j < 1 \<or> 1 < int j" for j
    using f len that by (auto simp add: at_def)
  have "paragraphs ?d ! 0 = paragraphs threeDoc ! 0"
    by (rule o) simp_all
  moreover have "paragraphs ?d ! 2 = paragraphs threeDoc ! 2"
    by (rule o) simp_all
  moreover have "map length_r (runs (paragraphs ?d ! 1)) = [2, 4, 10]"
    by code_simp
  ultimately show ?thesis by blast
qed


section \<open>Merging adjacent runs\<close>

lemma mergeLoop_mergeFrom: "mergeLoop (ms @ [m]) rs = ms @ mergeFrom m rs"
proof (induction rs arbitrary: ms m)
  case Nil
  then show ?case by simp
next
  case (Cons r rs)
  show ?case
  proof (cases "areStylesEqual (style m) (style r)")
    case True
    then show ?thesis using Cons.IH[of ms "m\<lparr>length_r := length_r m + length_r r\<rparr>"]
      by (simp add: Let_def)
  next
    case False
    then show ?thesis using Cons.IH[of "ms @ [m]" r]
      by (simp add: Let_def)
  qed
qed

lemma mergeAdjacentRuns_Nil: "mergeAdjacentRuns [] = []"
  by (simp add: mergeAdjacentRuns_def)

lemma mergeAdjacentRuns_Cons: "mergeAdjacentRuns (r # rs) = mergeFrom r rs"
proof (cases rs)
  case Nil
  then show ?thesis by (simp add: mergeAdjacentRuns_def)
next
  case (Cons a list)
  have "mergeLoop ([] @ [r]) rs = [] @ mergeFrom r rs" by (rule mergeLoop_mergeFrom)
  with Cons show ?thesis by (simp add: mergeAdjacentRuns_def)
qed

lemma mergeFrom_hd: "mergeFrom m rs \<noteq> [] \<and> style (hd (mergeFrom m rs)) = style m"
  by (induction rs arbitrary: m) simp_all

lemma noAdjacentEqual_Cons:
  "noAdjacentEqual (r # rs) \<longleftrightarrow>
     (rs = [] \<or> \<not> areStylesEqual (style r) (style (hd rs))) \<and> noAdjacentEqual rs"
  by (cases rs) simp_all

lemma noAdjacentEqual_mergeFrom: "noAdjacentEqual (mergeFrom m rs)"
proof (induction rs arbitrary: m)
  case Nil
  then show ?case by simp
next
  case (Cons r rs)
  show ?case
  proof (cases "areStylesEqual (style m) (style r)")
    case True
    then show ?thesis using Cons.IH by simp
  next
    case False
    then show ?thesis using Cons.IH[of r] mergeFrom_hd[of r rs]
      by (simp add: noAdjacentEqual_Cons)
  qed
qed

lemma noAdjacentEqual_mergeAdjacentRuns: "noAdjacentEqual (mergeAdjacentRuns rs)"
  by (cases rs) (simp_all add: mergeAdjacentRuns_Nil mergeAdjacentRuns_Cons noAdjacentEqual_mergeFrom)

lemma mergeFrom_fixed: "noAdjacentEqual (m # rs) \<Longrightarrow> mergeFrom m rs = m # rs"
proof (induction rs arbitrary: m)
  case Nil
  then show ?case by simp
next
  case (Cons r rs)
  then show ?case by simp
qed

lemma mergeAdjacentRuns_fixed: "noAdjacentEqual rs \<Longrightarrow> mergeAdjacentRuns rs = rs"
  by (cases rs) (simp_all add: mergeAdjacentRuns_Nil mergeAdjacentRuns_Cons mergeFrom_fixed)


section \<open>Adjacent runs after a mutation\<close>

lemma structurallyEqual_refl: "structurallyEqual v v"
proof (induction v)
  case (JObj xs)
  have "structurallyEqual v v" if "(k, v) \<in> set xs" for k v
    using that JObj.IH[of "(k, v)" v] by simp
  then show ?case by fastforce
qed simp_all

lemma sameStyle_refl: "sameStyle a a"
  by (simp add: sameStyle_def structurallyEqual_refl del: structurallyEqual.simps)

text \<open>Neither the loop of \<open>applyStyle\<close> nor the merge makes a style other than those of
  the runs and those with the patch merged in.\<close>

lemma styles_mergeFrom:
  "set (map style (mergeFrom m rs)) \<subseteq> insert (style m) (set (map style rs))"
proof (induction rs arbitrary: m)
  case Nil
  then show ?case by simp
next
  case (Cons r rs)
  show ?case
  proof (cases "areStylesEqual (style m) (style r)")
    case True
    then show ?thesis
      using Cons.IH[of "m\<lparr>length_r := length_r m + length_r r\<rparr>"] by auto
  next
    case False
    then show ?thesis using Cons.IH[of r] by auto
  qed
qed

lemma styles_mergeAdjacentRuns:
  "set (map style (mergeAdjacentRuns rs)) \<subseteq> set (map style rs)"
  using styles_mergeFrom
  by (cases rs) (simp_all add: mergeAdjacentRuns_Nil mergeAdjacentRuns_Cons)

lemma styles_applyLoop:
  "set (map style (applyLoop a b st off rs)) \<subseteq> set (patchedStyles st rs)"
  by (induction rs arbitrary: off) (auto simp: patchedStyles_def Let_def)


text \<open>After \<open>applyStyle\<close> on a valid range, a paragraph of the range holds the merged runs,
  in which \<open>areStylesEqual\<close> takes no two neighbours for equal.\<close>

lemma applyStyle_noAdjacentEqual:
  assumes "validateRange seg doc start end = None"
    and "j < length (paragraphs doc)"
    and "paragraphIndex start \<le> int j" and "int j \<le> paragraphIndex end"
  shows "runs (paragraphs (snd (applyStyle seg start end st doc)) ! j) =
           runs (styledParagraph seg start end st doc j) \<and>
         noAdjacentEqual (runs (paragraphs (snd (applyStyle seg start end st doc)) ! j))"
proof -
  from applyStyle_nth[OF assms(1), of st] assms(2-4)
  have "paragraphs (snd (applyStyle seg start end st doc)) ! j =
          styledParagraph seg start end st doc j"
    by simp
  then show ?thesis
    by (simp add: styledParagraph_def Let_def applyStyleToRuns_def
          noAdjacentEqual_mergeAdjacentRuns)
qed

lemma keyOrderAgrees_subset:
  "keyOrderAgrees ss \<Longrightarrow> set ss' \<subseteq> set ss \<Longrightarrow> keyOrderAgrees ss'"
  unfolding keyOrderAgrees_def by blast

text \<open>When the two equalities agree on the styles of the runs before the call and on those
  styles with the patch merged in, they agree on the styles of the runs after it.\<close>

lemma keyOrderAgrees_applyStyle:
  assumes valid: "validateRange seg doc start end = None"
    and j: "j < length (paragraphs doc)"
    and inside: "paragraphIndex start \<le> int j" "int j \<le> paragraphIndex end"
    and before: "keyOrderAgrees (patchedStyles st (runs (paragraphs doc ! j)))"
  shows "keyOrderAgrees
           (map style (runs (paragraphs (snd (applyStyle seg start end st doc)) ! j)))"
proof -
  let ?rs = "runs (paragraphs doc ! j)"
  let ?out = "runs (paragraphs (snd (applyStyle seg start end st doc)) ! j)"
  from applyStyle_noAdjacentEqual[OF valid j inside, of st]
  have out: "?out = runs (styledParagraph seg start end st doc j)"
    by blast
  obtain a b where "?out = mergeAdjacentRuns (applyLoop a b st 0 ?rs)"
    using out by (simp add: styledParagraph_def Let_def applyStyleToRuns_def)
  then have "set (map style ?out) \<subseteq> set (patchedStyles st ?rs)"
    using styles_mergeAdjacentRuns[of "applyLoop a b st 0 ?rs"] styles_applyLoop[of a b st 0 ?rs]
    by simp
  with before show ?thesis by (rule keyOrderAgrees_subset)
qed




text \<open>
  Where the order of the fields differs, the serialized styles differ and the runs stay
  apart: a run with the font size and a run with the letter spacing, both patched with the
  two fields, end with the same fields in two orders.
\<close>

lemma applyStyle_key_order:
  "validateRange pairSegmenter mixedDoc (at 0 0) (at 0 15) = None \<and>
   runs (hd (paragraphs (snd (applyStyle pairSegmenter (at 0 0) (at 0 15) bothFields mixedDoc)))) =
     [\<lparr>length_r = 5, style = [(''fontSize'', JNum 16), (''letterSpacing'', JNum 2)]\<rparr>,
      \<lparr>length_r = 10, style = [(''letterSpacing'', JNum 2), (''fontSize'', JNum 16)]\<rparr>] \<and>
   \<not> keyOrderAgrees (map style (runs (hd (paragraphs
        (snd (applyStyle pairSegmenter (at 0 0) (at 0 15) bothFields mixedDoc)))))) \<and>
   \<not> noAdjacentSame (runs (hd (paragraphs
        (snd (applyStyle pairSegmenter (at 0 0) (at 0 15) bothFields mixedDoc)))))"
  by code_simp


section \<open>The invariant and the validation of positions\<close>

text \<open>
  Claim C1 says that after every public operation with valid arguments the run lengths of
  every paragraph sum to the number of clusters of its text, and no run has length 0. The
  code breaks it on the input of the repository's own test of a multi-paragraph insertion:
  the document \<open>First paragraph\<close> with one run of length 15 satisfies the invariant, the
  position \<open>(0, 5)\<close> is valid, and after the insertion the first paragraph holds the 11
  clusters of \<open>First split\<close> under runs of lengths 5 and 10.
\<close>

theorem insertText_newlines_breaks_invariant:
  "runsMatchText pairSegmenter firstParagraph \<and>
   validatePosition pairSegmenter testDoc (at 0 5) = None \<and>
   fst (insertText pairSegmenter nfcId (at 0 5) splitText (fontSize 16) testDoc) = Inr () \<and>
   hd (paragraphs (snd (insertText pairSegmenter nfcId (at 0 5) splitText (fontSize 16) testDoc))) =
     \<lparr>text_p = utf16 ''First split'',
      runs = [\<lparr>length_r = 5, style = fontSize 16\<rparr>, \<lparr>length_r = 10, style = fontSize 16\<rparr>],
      yOffset = 0\<rparr> \<and>
   getGraphemeCount pairSegmenter (utf16 ''First split'') = 11 \<and>
   \<not> runsMatchText pairSegmenter
       (hd (paragraphs (snd (insertText pairSegmenter nfcId (at 0 5) splitText (fontSize 16) testDoc))))"
  by code_simp

text \<open>
  Claim C2 says that every public operation fails on an offset outside
  \<open>[0, graphemeCount]\<close>. \<open>pasteText\<close> does not: at offset 99 of a paragraph of 15 clusters,
  where \<open>validatePosition\<close> reports an invalid offset and \<open>insertText\<close> fails with it,
  \<open>pasteText\<close> returns normally and has appended the clipboard text.
\<close>

theorem pasteText_unchecked_offset:
  "validatePosition pairSegmenter testDoc (at 0 99) = Some (Invalid_offset 99 15) \<and>
   fst (insertText pairSegmenter nfcId (at 0 99) (utf16 ''x'') (fontSize 16) testDoc) =
     Inl (Invalid_offset 99 15) \<and>
   pasteText (at 0 99) clipX testDoc =
     (Inr (), \<lparr>paragraphs =
        [\<lparr>text_p = utf16 ''First paragraphx'',
          runs = [\<lparr>length_r = 16, style = fontSize 16\<rparr>], yOffset = 0\<rparr>]\<rparr>)"
  by code_simp

text \<open>The operations that call \<open>validatePosition\<close> fail exactly when the validation
  does, with its error, and leave the document as it was.\<close>

lemma insertText_validates:
  "validatePosition seg doc pos = Some err \<Longrightarrow>
     insertText seg nfc pos t st doc = (Inl err, doc)"
  by (simp add: insertText_def)

lemma deleteText_validates:
  "validateRange seg doc start end = Some err \<Longrightarrow>
     deleteText seg start end doc = (Inl err, doc)"
  by (simp add: deleteText_def)

lemma copyText_validates:
  "validateRange seg doc start end = Some err \<Longrightarrow>
     copyText seg start end doc = (Inl err, doc)"
  by (simp add: copyText_def)

lemma insertText_fails_iff:
  "(\<exists>err. fst (insertText seg nfc pos t st doc) = Inl err) \<longleftrightarrow>
     validatePosition seg doc pos \<noteq> None"
  by (auto simp: insertText_def Let_def split: option.splits if_splits)

lemma deleteText_fails_iff:
  "(\<exists>err. fst (deleteText seg start end doc) = Inl err) \<longleftrightarrow>
     validateRange seg doc start end \<noteq> None"
  by (auto simp: deleteText_def split: option.splits if_splits)

lemma applyStyle_fails_iff:
  "(\<exists>err. fst (applyStyle seg start end st doc) = Inl err) \<longleftrightarrow>
     validateRange seg doc start end \<noteq> None"
  by (auto simp: applyStyle_def split: option.splits if_splits)

lemma copyText_fails_iff:
  "(\<exists>err. fst (copyText seg start end doc) = Inl err) \<longleftrightarrow>
     validateRange seg doc start end \<noteq> None"
  by (auto simp: copyText_def Let_def split: option.splits if_splits)

lemma copyText_reads_only: "snd (copyText seg start end doc) = doc"
  by (simp add: copyText_def Let_def split: option.splits)


section \<open>The text that copyText extracts\<close>

lemma text_c_extractTextRange:
  "text_c (extractTextRange seg para a b) = trim (slice (text_p para) a (Some b))"
  by (simp add: extractTextRange_def Let_def)

lemma singleUnits_count: "singleUnits seg t \<Longrightarrow> getGraphemeCount seg t = int (length t)"
  by (simp add: singleUnits_def getGraphemeCount_def)

lemma slice_singleUnits:
  assumes su: "singleUnits seg t" and a: "0 \<le> a" and ab: "a \<le> b"
    and b: "b \<le> getGraphemeCount seg t"
  shows "slice t a (Some b) = clusterRange seg t a b"
proof -
  from b su have bl: "nat b \<le> length t" by (simp add: singleUnits_count)
  with a ab have "slice t a (Some b) = map ((!) t) [nat a ..< nat b]"
    by (simp add: slice_nths relIndex_def min_def)
  also have "\<dots> = concat (map (\<lambda>i. [t ! i]) [nat a ..< nat b])"
    by (induction "[nat a ..< nat b]") (simp_all add: concat_map_singleton)
  also have "map (\<lambda>i. [t ! i]) [nat a ..< nat b] = map ((!) (map (\<lambda>c. [c]) t)) [nat a ..< nat b]"
    using bl by (intro map_cong) simp_all
  finally show ?thesis using su by (simp add: clusterRange_def singleUnits_def)
qed

lemma copyText_ok:
  assumes "validateRange seg doc start end = None"
  shows "\<exists>clip. copyText seg start end doc = (Inr clip, doc)"
  using assms by (simp add: copyText_def Let_def)

text \<open>
  Claim C3, as amended. For a valid range whose first and last paragraph consist of
  clusters of one code unit each, \<open>copyText\<close> returns one clipboard paragraph for each
  paragraph of the range; the text of the paragraph at either end of the range (of the
  only one, when the range lies in one paragraph) is the grapheme-range slice of the
  source text with the white space at both ends trimmed off, and the text of a paragraph
  strictly between is the whole source text, untrimmed.
\<close>

theorem copyText_trims:
  assumes valid: "validateRange seg doc start end = None"
    and first: "singleUnits seg (text_p (paragraphs doc ! nat (paragraphIndex start)))"
    and last: "singleUnits seg (text_p (paragraphs doc ! nat (paragraphIndex end)))"
  shows "\<exists>clip. copyText seg start end doc = (Inr clip, doc) \<and>
           length clip = nat (paragraphIndex end - paragraphIndex start) + 1 \<and>
           (\<forall>k<length clip. text_c (clip ! k) = copiedText seg start end doc k)"
proof (cases "paragraphIndex start = paragraphIndex end")
  case True
  let ?p = "paragraphs doc ! nat (paragraphIndex start)"
  from valid True have v: "0 \<le> offset start" "offset start \<le> offset end"
    "offset end \<le> getGraphemeCount seg (text_p ?p)" "0 \<le> paragraphIndex start"
    by (simp_all add: validateRange_None validatePosition_None)
  have c: "copyText seg start end doc =
             (Inr [extractTextRange seg ?p (offset start) (offset end)], doc)"
    using valid True by (simp add: copyText_def)
  have "text_c (extractTextRange seg ?p (offset start) (offset end)) =
          copiedText seg start end doc 0"
    using True v first
    by (simp add: text_c_extractTextRange slice_singleUnits copiedText_def Let_def)
  with c True show ?thesis by simp
next
  case False
  let ?s = "paragraphIndex start" and ?e = "paragraphIndex end"
  let ?ps = "paragraphs doc"
  from valid False have lt: "?s < ?e" and s0: "0 \<le> ?s"
    and os: "0 \<le> offset start" "offset start \<le> getGraphemeCount seg (text_p (?ps ! nat ?s))"
    and oe: "0 \<le> offset end" "offset end \<le> getGraphemeCount seg (text_p (?ps ! nat ?e))"
    by (simp_all add: validateRange_None validatePosition_None)
  let ?first = "extractTextRange seg (?ps ! nat ?s) (offset start)
                  (getGraphemeCount seg (text_p (?ps ! nat ?s)))"
  let ?mid = "map (\<lambda>i. \<lparr>text_c = text_p (?ps ! nat i), runs_c = runs (?ps ! nat i)\<rparr>)
                [?s + 1 .. ?e - 1]"
  let ?last = "extractTextRange seg (?ps ! nat ?e) 0 (offset end)"
  let ?clip = "[?first] @ ?mid @ [?last]"
  have c: "copyText seg start end doc = (Inr ?clip, doc)"
    using valid False by (simp add: copyText_def Let_def)
  have lm: "length ?mid = nat (?e - ?s) - 1"
    using lt by (simp add: nat_diff_distrib)
  have len: "length ?clip = nat (?e - ?s) + 1"
    using lm lt by simp
  have "text_c (?clip ! k) = copiedText seg start end doc k" if k: "k < length ?clip" for k
  proof -
    consider (f) "k = 0" | (m) "0 < k" "k < nat (?e - ?s)" | (l) "k = nat (?e - ?s)"
      using k len by linarith
    then show ?thesis
    proof cases
      case f
      then show ?thesis using lt os first s0
        by (simp add: text_c_extractTextRange slice_singleUnits copiedText_def Let_def)
    next
      case m
      then have km: "k - 1 < length ?mid" using lm by simp
      have "?clip ! k = ?mid ! (k - 1)"
        using m km by (simp add: nth_Cons' nth_append)
      also have "\<dots> = \<lparr>text_c = text_p (?ps ! nat (?s + 1 + int (k - 1))),
                         runs_c = runs (?ps ! nat (?s + 1 + int (k - 1)))\<rparr>"
        using km by simp
      finally have "text_c (?clip ! k) = text_p (?ps ! nat (?s + 1 + int (k - 1)))"
        by simp
      moreover have "nat (?s + 1 + int (k - 1)) = nat ?s + k"
        using m s0 by (simp add: nat_add_distrib)
      moreover have "int (nat ?s + k) \<noteq> ?e" using m s0 by linarith
      ultimately show ?thesis using m
        by (simp add: copiedText_def Let_def)
    next
      case l
      then have "?clip ! k = ?last"
        using lm lt by (simp add: nth_Cons' nth_append)
      moreover have "int (nat ?s + k) = ?e" "k \<noteq> 0" "nat ?s + k = nat ?e"
        using l s0 lt by simp_all
      ultimately show ?thesis using oe last
        by (simp add: text_c_extractTextRange slice_singleUnits copiedText_def Let_def)
    qed
  qed
  with c len show ?thesis by blast
qed

theorem copyText_trims_witness:
  "validateRange pairSegmenter threeDoc (at 0 6) (at 2 3) = None \<and>
   singleUnits pairSegmenter (text_p (paragraphs threeDoc ! 0)) \<and>
   singleUnits pairSegmenter (text_p (paragraphs threeDoc ! 2)) \<and>
   (\<exists>clip. copyText pairSegmenter (at 0 6) (at 2 3) threeDoc = (Inr clip, threeDoc) \<and>
      length clip = 3 \<and>
      text_c (clip ! 0) = utf16 ''paragraph'' \<and>
      text_c (clip ! 1) = utf16 ''Second paragraph'' \<and>
      text_c (clip ! 2) = utf16 ''Thi'')"
proof -
  have v: "validateRange pairSegmenter threeDoc (at 0 6) (at 2 3) = None"
    by code_simp
  have s0: "singleUnits pairSegmenter (text_p (paragraphs threeDoc ! 0))"
    and s2: "singleUnits pairSegmenter (text_p (paragraphs threeDoc ! 2))"
    by code_simp+
  have i: "nat (paragraphIndex (at 0 6)) = 0" "nat (paragraphIndex (at 2 3)) = 2"
    "nat (paragraphIndex (at 2 3) - paragraphIndex (at 0 6)) + 1 = 3"
    by (simp_all add: at_def)
  from copyText_trims [of pairSegmenter threeDoc "at 0 6" "at 2 3"] v s0 s2
  obtain clip where clip: "copyText pairSegmenter (at 0 6) (at 2 3) threeDoc = (Inr clip, threeDoc)"
    "length clip = 3"
    "\<forall>k<length clip. text_c (clip ! k) = copiedText pairSegmenter (at 0 6) (at 2 3) threeDoc k"
    unfolding i by blast
  have c: "copiedText pairSegmenter (at 0 6) (at 2 3) threeDoc 0 = utf16 ''paragraph''"
    "copiedText pairSegmenter (at 0 6) (at 2 3) threeDoc 1 = utf16 ''Second paragraph''"
    "copiedText pairSegmenter (at 0 6) (at 2 3) threeDoc 2 = utf16 ''Thi''"
    by code_simp+
  from clip(2,3) c have "text_c (clip ! 0) = utf16 ''paragraph''"
    "text_c (clip ! 1) = utf16 ''Second paragraph''" "text_c (clip ! 2) = utf16 ''Thi''"
    by simp_all
  with clip(1,2) v s0 s2 show ?thesis by blast
qed

text \<open>
  Claim C3 as stated fails: the slice from offset 5 to 15 of \<open>First paragraph\<close> starts
  with a space, and the clipboard text does not.
\<close>

theorem copyText_trims_counterexample:
  "validateRange pairSegmenter testDoc (at 0 5) (at 0 15) = None \<and>
   clusterRange pairSegmenter (utf16 ''First paragraph'') 5 15 = utf16 '' paragraph'' \<and>
   fst (copyText pairSegmenter (at 0 5) (at 0 15) testDoc) =
     Inr [\<lparr>text_c = utf16 ''paragraph'',
           runs_c = [\<lparr>length_r = 10, style = fontSize 16\<rparr>]\<rparr>]"
  by code_simp


section \<open>The texts after deleteText and pasteText\<close>

lemma slice_prefix: "0 \<le> a \<Longrightarrow> slice xs 0 (Some a) = take (nat a) xs"
  by (simp add: slice_def relIndex_def min_def Let_def)

lemma slice_suffix: "0 \<le> a \<Longrightarrow> slice xs a None = drop (nat a) xs"
  by (simp add: slice_def relIndex_def min_def Let_def)

lemma splice_insert:
  "0 \<le> k \<Longrightarrow> splice xs k (Some 0) items = take (nat k) xs @ items @ drop (nat k) xs"
  by (simp add: splice_def relIndex_def min_def Let_def)

lemma splice_remove:
  "0 \<le> k \<Longrightarrow> 0 \<le> c \<Longrightarrow> nat k + nat c \<le> length xs \<Longrightarrow>
     splice xs k (Some c) [] = take (nat k) xs @ drop (nat k + nat c) xs"
  by (auto simp add: splice_def relIndex_def min_def Let_def)

lemma take_Suc_update: "n < length xs \<Longrightarrow> take (Suc n) (xs[n := x]) = take n xs @ [x]"
  by (simp add: take_Suc_conv_app_nth)

lemma concat_singletons: "concat (map (\<lambda>c. [c]) xs) = xs"
  by (induction xs) simp_all

lemma concat_take_singletons: "concat (take n (map (\<lambda>c. [c]) xs)) = take n xs"
  by (simp add: take_map concat_singletons)

lemma concat_drop_singletons: "concat (drop n (map (\<lambda>c. [c]) xs)) = drop n xs"
  by (simp add: drop_map concat_singletons)

lemma text_p_updateRunLengths [simp]: "text_p (updateRunLengths seg para) = text_p para"
  by (simp add: updateRunLengths_def)

lemma text_p_updateRunsAfterDeletion [simp]:
  "text_p (updateRunsAfterDeletion para a n) = text_p para"
  by (simp add: updateRunsAfterDeletion_def Let_def)

lemma text_p_updateRunsAfterMultiParagraphDeletion [simp]:
  "text_p (updateRunsAfterMultiParagraphDeletion seg sp a ep b) = text_p sp"
  by (simp add: updateRunsAfterMultiParagraphDeletion_def Let_def)

lemma text_p_insertRunsAtOffset [simp]: "text_p (insertRunsAtOffset para a rs) = text_p para"
  by (simp add: insertRunsAtOffset_def Let_def split: prod.splits)

lemma text_p_updateRunsForSplit [simp]: "text_p (updateRunsForSplit para a) = text_p para"
  by (simp add: updateRunsForSplit_def Let_def split: prod.splits)

lemma text_p_updateRunsForPaste [simp]: "text_p (updateRunsForPaste para a rs) = text_p para"
  by (simp add: updateRunsForPaste_def)

lemma sliceTextByGraphemes_prefix:
  assumes "0 \<le> i" "i < int (length (paragraphs doc))" "0 \<le> a"
    and "singleUnits seg (text_p (paragraphs doc ! nat i))"
  shows "sliceTextByGraphemes seg doc i 0 (Some a) = take (nat a) (text_p (paragraphs doc ! nat i))"
  using assms
  by (simp add: sliceTextByGraphemes_def singleUnits_def slice_prefix concat_take_singletons
        Let_def)

lemma sliceTextByGraphemes_suffix:
  assumes "0 \<le> i" "i < int (length (paragraphs doc))" "0 \<le> a"
    and "singleUnits seg (text_p (paragraphs doc ! nat i))"
  shows "sliceTextByGraphemes seg doc i a None = drop (nat a) (text_p (paragraphs doc ! nat i))"
  using assms
  by (simp add: sliceTextByGraphemes_def singleUnits_def slice_suffix concat_drop_singletons
        Let_def)

lemma deleteText_texts_within:
  assumes valid: "validateRange seg doc start end = None"
    and same: "paragraphIndex start = paragraphIndex end"
    and su: "singleUnits seg (text_p (paragraphs doc ! nat (paragraphIndex start)))"
  shows "fst (deleteText seg start end doc) = Inr () \<and>
         map text_p (paragraphs (snd (deleteText seg start end doc))) =
           (map text_p (paragraphs doc))[nat (paragraphIndex start) :=
              take (nat (offset start)) (text_p (paragraphs doc ! nat (paragraphIndex start))) @
              drop (nat (offset end)) (text_p (paragraphs doc ! nat (paragraphIndex start)))]"
proof -
  let ?p = "paragraphs doc ! nat (paragraphIndex start)"
  let ?t = "text_p ?p"
  from valid same have v: "0 \<le> offset start" "offset start \<le> offset end"
    "offset end \<le> getGraphemeCount seg ?t"
    by (simp_all add: validateRange_None validatePosition_None)
  have e0: "0 \<le> offset end" using v by simp
  have m: "max 0 (offset start) = offset start"
    "min (int (length (seg ?t))) (offset end) = offset end"
    using v by (simp_all add: getGraphemeCount_def)
  have t': "concat (slice (seg ?t) 0 (Some (offset start))) @
            concat (slice (seg ?t) (offset end) None) =
            take (nat (offset start)) ?t @ drop (nat (offset end)) ?t"
    using su by (simp add: slice_prefix[OF v(1)] slice_suffix[OF e0] singleUnits_def
                   concat_take_singletons concat_drop_singletons)
  have "paragraphs (snd (deleteText seg start end doc)) =
          (paragraphs doc)[nat (paragraphIndex start) :=
             updateRunLengths seg (updateRunsAfterDeletion
               (?p\<lparr>text_p := take (nat (offset start)) ?t @ drop (nat (offset end)) ?t\<rparr>)
               (offset start) (offset end - offset start))]"
    using valid by (simp add: deleteText_def same[symmetric] deleteWithinParagraph_def Let_def m t')
  then have "map text_p (paragraphs (snd (deleteText seg start end doc))) =
           (map text_p (paragraphs doc))[nat (paragraphIndex start) :=
              take (nat (offset start)) ?t @ drop (nat (offset end)) ?t]"
    by (simp add: map_update)
  moreover have "fst (deleteText seg start end doc) = Inr ()"
    using valid same by (simp add: deleteText_def)
  ultimately show ?thesis by simp
qed

lemma deleteText_texts_across:
  assumes valid: "validateRange seg doc start end = None"
    and lt: "paragraphIndex start < paragraphIndex end"
    and su: "singleUnits seg (text_p (paragraphs doc ! nat (paragraphIndex start)))"
            "singleUnits seg (text_p (paragraphs doc ! nat (paragraphIndex end)))"
  shows "fst (deleteText seg start end doc) = Inr () \<and>
         map text_p (paragraphs (snd (deleteText seg start end doc))) =
           take (nat (paragraphIndex start)) (map text_p (paragraphs doc)) @
           [take (nat (offset start)) (text_p (paragraphs doc ! nat (paragraphIndex start))) @
            drop (nat (offset end)) (text_p (paragraphs doc ! nat (paragraphIndex end)))] @
           drop (nat (paragraphIndex end) + 1) (map text_p (paragraphs doc))"
proof -
  let ?s = "paragraphIndex start" and ?e = "paragraphIndex end" and ?ps = "paragraphs doc"
  from valid have v: "0 \<le> ?s" "?s < int (length ?ps)" "0 \<le> ?e" "?e < int (length ?ps)"
    "0 \<le> offset start" "0 \<le> offset end"
    by (simp_all add: validateRange_None validatePosition_None)
  let ?new = "take (nat (offset start)) (text_p (?ps ! nat ?s)) @
              drop (nat (offset end)) (text_p (?ps ! nat ?e))"
  have nt: "sliceTextByGraphemes seg doc ?s 0 (Some (offset start)) @
            sliceTextByGraphemes seg doc ?e (offset end) None = ?new"
    using v su by (simp add: sliceTextByGraphemes_prefix sliceTextByGraphemes_suffix)
  have sl: "nat ?s < length ?ps" "nat ?e < length ?ps" "nat ?s < nat ?e" using v lt by simp_all
  have k: "0 \<le> ?s + 1" "0 \<le> ?e - ?s" "nat (?s + 1) = nat ?s + 1"
    "nat (?s + 1) + nat (?e - ?s) = nat ?e + 1"
    using v lt by simp_all
  have sp: "splice xs (?s + 1) (Some (?e - ?s)) [] = take (nat ?s + 1) xs @ drop (nat ?e + 1) xs"
    if "length xs = length ?ps" for xs :: "Paragraph list"
    using splice_remove[OF k(1,2), of xs] that sl k by simp
  let ?P = "(?ps ! nat ?s)\<lparr>text_p := ?new\<rparr>"
  let ?U = "updateRunLengths seg
               (updateRunsAfterMultiParagraphDeletion seg ?P (offset start) (?ps ! nat ?e)
                  (offset end))"
  have d: "paragraphs (snd (deleteText seg start end doc)) =
            (take (nat ?s + 1) (?ps[nat ?s := ?P]) @ drop (nat ?e + 1) (?ps[nat ?s := ?P]))
            [nat ?s := ?U]"
    using valid lt by (simp add: deleteText_def deleteAcrossParagraphs_def Let_def nt sp)
  have h1: "take (nat ?s + 1) (?ps[nat ?s := ?P]) = take (nat ?s) ?ps @ [?P]"
    unfolding Suc_eq_plus1[symmetric] by (rule take_Suc_update[OF sl(1)])
  have h2: "drop (nat ?e + 1) (?ps[nat ?s := ?P]) = drop (nat ?e + 1) ?ps"
    using sl(3) by (simp only: drop_update_cancel less_SucI Suc_eq_plus1[symmetric])
  have h3: "(take (nat ?s) ?ps @ [?P] @ drop (nat ?e + 1) ?ps)[nat ?s := ?U] =
            take (nat ?s) ?ps @ [?U] @ drop (nat ?e + 1) ?ps"
    using sl(1) by (simp add: list_update_append)
  have "paragraphs (snd (deleteText seg start end doc)) =
          take (nat ?s) ?ps @ [?U] @ drop (nat ?e + 1) ?ps"
    unfolding d h1 h2 using h3 by simp
  then have "map text_p (paragraphs (snd (deleteText seg start end doc))) =
          take (nat ?s) (map text_p ?ps) @ [?new] @ drop (nat ?e + 1) (map text_p ?ps)"
    by (simp add: take_map drop_map)
  moreover have "fst (deleteText seg start end doc) = Inr ()"
    using valid lt by (simp add: deleteText_def)
  ultimately show ?thesis by simp
qed


lemma pasteText_texts_single:
  assumes "0 \<le> paragraphIndex pos" "paragraphIndex pos < int (length (paragraphs d))"
  shows "fst (pasteText pos [c] d) = Inr () \<and>
         map text_p (paragraphs (snd (pasteText pos [c] d))) =
           (map text_p (paragraphs d))[nat (paragraphIndex pos) :=
              slice (text_p (paragraphs d ! nat (paragraphIndex pos))) 0 (Some (offset pos)) @
              text_c c @
              slice (text_p (paragraphs d ! nat (paragraphIndex pos))) (offset pos) None]"
  using assms by (simp add: pasteText_def Let_def map_update)

lemma pasteText_texts_multi:
  assumes idx: "0 \<le> paragraphIndex pos" "paragraphIndex pos < int (length (paragraphs d))"
    and len: "2 \<le> length clip"
  shows "fst (pasteText pos clip d) = Inr () \<and>
         map text_p (paragraphs (snd (pasteText pos clip d))) =
           take (nat (paragraphIndex pos)) (map text_p (paragraphs d)) @
           [slice (text_p (paragraphs d ! nat (paragraphIndex pos))) 0 (Some (offset pos)) @
            text_c (hd clip)] @
           map text_c (butlast (tl clip)) @
           [text_c (last clip) @
            slice (text_p (paragraphs d ! nat (paragraphIndex pos))) (offset pos) None] @
           drop (nat (paragraphIndex pos) + 1) (map text_p (paragraphs d))"
proof -
  let ?i = "nat (paragraphIndex pos)" and ?ps = "paragraphs d"
  let ?t = "text_p (?ps ! ?i)"
  let ?cur = "updateRunsForPaste ((?ps ! ?i)\<lparr>text_p := slice ?t 0 (Some (offset pos)) @ text_c (hd clip)\<rparr>)
                (offset pos) (runs_c (hd clip))"
  let ?items = "map (\<lambda>c. \<lparr>text_p = text_c c, runs = runs_c c, yOffset = 0\<rparr>) (butlast (tl clip)) @
                [\<lparr>text_p = text_c (last clip) @ slice ?t (offset pos) None,
                  runs = runs_c (last clip), yOffset = 0\<rparr>]"
  have il: "?i < length ?ps" using idx by simp
  have k: "0 \<le> paragraphIndex pos + 1" "nat (paragraphIndex pos + 1) = Suc ?i"
    using idx by simp_all
  have p: "pasteText pos clip d =
             (Inr (), d\<lparr>paragraphs := splice (?ps[?i := ?cur]) (paragraphIndex pos + 1) (Some 0) ?items\<rparr>)"
  proof -
    from len have "clip \<noteq> []" "length clip \<noteq> Suc 0" by auto
    then show ?thesis using idx by (simp add: pasteText_def Let_def)
  qed
  have "splice (?ps[?i := ?cur]) (paragraphIndex pos + 1) (Some 0) ?items =
          take (Suc ?i) (?ps[?i := ?cur]) @ ?items @ drop (Suc ?i) (?ps[?i := ?cur])"
    by (simp only: splice_insert[OF k(1)] k(2))
  also have "take (Suc ?i) (?ps[?i := ?cur]) = take ?i ?ps @ [?cur]"
    by (rule take_Suc_update[OF il])
  also have "drop (Suc ?i) (?ps[?i := ?cur]) = drop (Suc ?i) ?ps"
    by simp
  finally have "paragraphs (snd (pasteText pos clip d)) =
                  (take ?i ?ps @ [?cur]) @ ?items @ drop (Suc ?i) ?ps"
    by (simp add: p)
  then have "map text_p (paragraphs (snd (pasteText pos clip d))) =
           take ?i (map text_p ?ps) @
           [slice ?t 0 (Some (offset pos)) @ text_c (hd clip)] @
           map text_c (butlast (tl clip)) @
           [text_c (last clip) @ slice ?t (offset pos) None] @
           drop (?i + 1) (map text_p ?ps)"
    by (simp add: take_map drop_map comp_def)
  with p show ?thesis by simp
qed

lemma upto_nths:
  assumes "e < length xs"
  shows "map (\<lambda>i. xs ! nat i) [int s + 1 .. int e - 1] = take (e - s - 1) (drop (s + 1) xs)"
proof (rule nth_equalityI)
  show "length (map (\<lambda>i. xs ! nat i) [int s + 1 .. int e - 1]) =
        length (take (e - s - 1) (drop (s + 1) xs))"
    using assms by auto
next
  fix k
  assume "k < length (map (\<lambda>i. xs ! nat i) [int s + 1 .. int e - 1])"
  then have k: "int s + 1 + int k \<le> int e - 1" by auto
  then have u: "[int s + 1 .. int e - 1] ! k = int s + 1 + int k"
    by (rule nth_upto)
  have n: "nat (int s + 1 + int k) = s + 1 + k" by simp
  have kl: "k < length [int s + 1 .. int e - 1]" using k by simp
  have "map (\<lambda>i. xs ! nat i) [int s + 1 .. int e - 1] ! k = xs ! (s + 1 + k)"
    using kl by (simp only: nth_map u n)
  moreover have "take (e - s - 1) (drop (s + 1) xs) ! k = xs ! (s + 1 + k)"
    using k assms by simp
  ultimately show "map (\<lambda>i. xs ! nat i) [int s + 1 .. int e - 1] ! k =
                     take (e - s - 1) (drop (s + 1) xs) ! k"
    by simp
qed

lemma reassemble:
  assumes "s < e" "e < length xs"
  shows "take s xs @ [xs ! s] @ map (\<lambda>i. xs ! nat i) [int s + 1 .. int e - 1] @
         [xs ! e] @ drop (e + 1) xs = xs"
proof -
  have "drop (s + 1) xs = take (e - s - 1) (drop (s + 1) xs) @ drop (e - s - 1) (drop (s + 1) xs)"
    by (simp only: append_take_drop_id)
  also have "drop (e - s - 1) (drop (s + 1) xs) = drop e xs"
    using assms by simp
  also have "drop e xs = xs ! e # drop (e + 1) xs"
    using assms by (simp add: Cons_nth_drop_Suc)
  finally have d: "drop (s + 1) xs =
      take (e - s - 1) (drop (s + 1) xs) @ xs ! e # drop (e + 1) xs" .
  have "xs = take s xs @ xs ! s # drop (s + 1) xs"
    using assms by (simp add: id_take_nth_drop)
  also have "\<dots> = take s xs @ xs ! s # take (e - s - 1) (drop (s + 1) xs) @
                       xs ! e # drop (e + 1) xs"
    using d by simp
  finally show ?thesis using assms by (simp add: upto_nths)
qed


section \<open>Copy, delete, paste\<close>

lemma singleUnits_prefix:
  assumes "singleUnits seg t" "0 \<le> b" "b \<le> getGraphemeCount seg t"
  shows "clusterRange seg t 0 b = take (nat b) t"
  using slice_singleUnits[OF assms(1) _ assms(2,3)] assms(2) by (simp add: slice_prefix)

lemma singleUnits_suffix:
  assumes "singleUnits seg t" "0 \<le> a" "a \<le> getGraphemeCount seg t"
  shows "clusterRange seg t a (getGraphemeCount seg t) = drop (nat a) t"
proof -
  have "clusterRange seg t a (getGraphemeCount seg t) = slice t a (Some (getGraphemeCount seg t))"
    using slice_singleUnits[OF assms(1,2,3)] by simp
  also have "\<dots> = drop (nat a) t"
    using assms by (simp add: slice_def relIndex_def Let_def singleUnits_count)
  finally show ?thesis .
qed

lemma singleUnits_middle:
  assumes "singleUnits seg t" "0 \<le> a" "a \<le> b" "b \<le> getGraphemeCount seg t"
  shows "take (nat a) t @ clusterRange seg t a b @ drop (nat b) t = t"
proof -
  have bl: "nat b \<le> length t" using assms by (simp add: singleUnits_count)
  have "slice t a (Some b) = take (nat b - nat a) (drop (nat a) t)"
    using assms(2,3) bl by (simp add: slice_def relIndex_def Let_def min_def)
  then have "clusterRange seg t a b = take (nat b - nat a) (drop (nat a) t)"
    using slice_singleUnits[OF assms] by simp
  moreover have "drop (nat b) t = drop (nat b - nat a) (drop (nat a) t)"
    using assms by simp
  ultimately show ?thesis by (simp only: append_take_drop_id)
qed

text \<open>
  Claim C4, as amended. For a valid range whose first and last paragraph consist of
  clusters of one code unit each, and whose copied text neither starts nor ends with white
  space in those two paragraphs (so that the trimming of \<open>copyText\<close> removes nothing),
  \<open>copyText\<close>, then \<open>deleteText\<close> of the range, then \<open>pasteText\<close> of the clipboard at the
  start of the range all succeed and restore the number of paragraphs and the text of
  every paragraph of the document.
\<close>

theorem roundTrip_restores_texts:
  assumes valid: "validateRange seg doc start end = None"
    and first: "singleUnits seg (text_p (paragraphs doc ! nat (paragraphIndex start)))"
    and last: "singleUnits seg (text_p (paragraphs doc ! nat (paragraphIndex end)))"
    and keepFirst: "copiedText seg start end doc 0 = cutText seg start end doc 0"
    and keepLast: "copiedText seg start end doc (nat (paragraphIndex end - paragraphIndex start)) =
                   cutText seg start end doc (nat (paragraphIndex end - paragraphIndex start))"
  shows "fst (roundTrip seg start end doc) = Inr () \<and>
         map text_p (paragraphs (snd (roundTrip seg start end doc))) =
           map text_p (paragraphs doc)"
proof (cases "paragraphIndex start = paragraphIndex end")
  case True
  let ?s = "paragraphIndex start" and ?ps = "paragraphs doc"
  let ?t = "text_p (?ps ! nat ?s)"
  let ?a = "offset start" and ?b = "offset end"
  from valid True have v: "0 \<le> ?s" "?s < int (length ?ps)" "0 \<le> ?a" "?a \<le> ?b"
    "?b \<le> getGraphemeCount seg ?t"
    by (simp_all add: validateRange_None validatePosition_None)
  have sl: "nat ?s < length ?ps" using v by simp
  have al: "nat ?a \<le> length ?t" using v first by (simp add: singleUnits_count)
  let ?c = "extractTextRange seg (?ps ! nat ?s) ?a ?b"
  have c: "copyText seg start end doc = (Inr [?c], doc)"
    using valid True by (simp add: copyText_def)
  have "text_c ?c = copiedText seg start end doc 0"
    using True v first
    by (simp add: text_c_extractTextRange slice_singleUnits copiedText_def Let_def)
  also have "\<dots> = clusterRange seg ?t ?a ?b"
    using keepFirst True v by (simp add: cutText_def Let_def)
  finally have tc: "text_c ?c = clusterRange seg ?t ?a ?b" .
  let ?d1 = "snd (deleteText seg start end doc)"
  let ?t1 = "take (nat ?a) ?t @ drop (nat ?b) ?t"
  from deleteText_texts_within[OF valid True first]
  have d: "fst (deleteText seg start end doc) = Inr ()"
    "map text_p (paragraphs ?d1) = (map text_p ?ps)[nat ?s := ?t1]"
    by simp_all
  have l1: "length (paragraphs ?d1) = length ?ps"
    using arg_cong[OF d(2), of length] by simp
  have t1: "text_p (paragraphs ?d1 ! nat ?s) = ?t1"
    using arg_cong[OF d(2), of "\<lambda>xs. xs ! nat ?s"] sl l1 by simp
  have r: "roundTrip seg start end doc = pasteText start [?c] ?d1"
    using d(1) by (cases "deleteText seg start end doc") (simp add: roundTrip_def c)
  have i1: "?s < int (length (paragraphs ?d1))" using v l1 by simp
  from pasteText_texts_single[OF v(1) i1, of ?c]
  have p: "fst (pasteText start [?c] ?d1) = Inr ()"
    "map text_p (paragraphs (snd (pasteText start [?c] ?d1))) =
       (map text_p (paragraphs ?d1))[nat ?s :=
          slice ?t1 0 (Some ?a) @ text_c ?c @ slice ?t1 ?a None]"
    by (simp_all add: t1)
  have "slice ?t1 0 (Some ?a) = take (nat ?a) ?t"
    using v al by (simp add: slice_prefix)
  moreover have "slice ?t1 ?a None = drop (nat ?b) ?t"
    using v al by (simp add: slice_suffix)
  ultimately have "slice ?t1 0 (Some ?a) @ text_c ?c @ slice ?t1 ?a None = ?t"
    using singleUnits_middle[OF first v(3,4,5)] tc by simp
  then have "map text_p (paragraphs (snd (pasteText start [?c] ?d1))) =
               (map text_p ?ps)[nat ?s := ?t]"
    using p(2) d(2) by simp
  also have "\<dots> = map text_p ?ps"
    using sl by (simp add: list_update_same_conv)
  finally show ?thesis using p(1) r by simp
next
  case False
  let ?s = "paragraphIndex start" and ?e = "paragraphIndex end" and ?ps = "paragraphs doc"
  let ?ts = "text_p (?ps ! nat ?s)" and ?te = "text_p (?ps ! nat ?e)"
  let ?a = "offset start" and ?b = "offset end"
  from valid False have lt: "?s < ?e"
    and v: "0 \<le> ?s" "?s < int (length ?ps)" "0 \<le> ?e" "?e < int (length ?ps)"
    and oa: "0 \<le> ?a" "?a \<le> getGraphemeCount seg ?ts"
    and ob: "0 \<le> ?b" "?b \<le> getGraphemeCount seg ?te"
    by (simp_all add: validateRange_None validatePosition_None)
  have sl: "nat ?s < nat ?e" "nat ?e < length ?ps" "nat ?s < length ?ps" using v lt by simp_all
  have al: "nat ?a \<le> length ?ts" using oa first by (simp add: singleUnits_count)
  let ?first = "extractTextRange seg (?ps ! nat ?s) ?a (getGraphemeCount seg ?ts)"
  let ?mid = "map (\<lambda>i. \<lparr>text_c = text_p (?ps ! nat i), runs_c = runs (?ps ! nat i)\<rparr>)
                [?s + 1 .. ?e - 1]"
  let ?last = "extractTextRange seg (?ps ! nat ?e) 0 ?b"
  let ?clip = "?first # ?mid @ [?last]"
  have c: "copyText seg start end doc = (Inr ?clip, doc)"
    using valid False by (simp add: copyText_def Let_def)
  have n: "nat ?s + nat (?e - ?s) = nat ?e" "nat (?e - ?s) \<noteq> 0" using v lt by simp_all
  have "text_c ?first = copiedText seg start end doc 0"
    using lt v oa first
    by (simp add: text_c_extractTextRange slice_singleUnits copiedText_def Let_def)
  also have "\<dots> = clusterRange seg ?ts ?a (getGraphemeCount seg ?ts)"
    using keepFirst lt v by (simp add: cutText_def Let_def)
  also have "\<dots> = drop (nat ?a) ?ts"
    by (rule singleUnits_suffix[OF first oa])
  finally have tf: "text_c ?first = drop (nat ?a) ?ts" .
  have "text_c ?last = copiedText seg start end doc (nat (?e - ?s))"
    using n v ob last
    by (simp add: text_c_extractTextRange slice_singleUnits copiedText_def Let_def)
  also have "\<dots> = clusterRange seg ?te 0 ?b"
    using keepLast n v by (simp add: cutText_def Let_def)
  also have "\<dots> = take (nat ?b) ?te"
    by (rule singleUnits_prefix[OF last ob])
  finally have tl: "text_c ?last = take (nat ?b) ?te" .
  have tm: "map text_c ?mid = map (\<lambda>i. map text_p ?ps ! nat i) [int (nat ?s) + 1 .. int (nat ?e) - 1]"
    using v sl by (auto simp: comp_def)
  let ?d1 = "snd (deleteText seg start end doc)"
  let ?t1 = "take (nat ?a) ?ts @ drop (nat ?b) ?te"
  let ?texts = "map text_p ?ps"
  from deleteText_texts_across[OF valid lt first last]
  have d: "fst (deleteText seg start end doc) = Inr ()"
    "map text_p (paragraphs ?d1) = take (nat ?s) ?texts @ [?t1] @ drop (nat ?e + 1) ?texts"
    by simp_all
  have l1: "nat ?s < length (paragraphs ?d1)"
    using arg_cong[OF d(2), of length] sl by simp
  have t1: "text_p (paragraphs ?d1 ! nat ?s) = ?t1"
    using arg_cong[OF d(2), of "\<lambda>xs. xs ! nat ?s"] sl l1 by (simp add: nth_append)
  have r: "roundTrip seg start end doc = pasteText start ?clip ?d1"
    using d(1) by (cases "deleteText seg start end doc") (simp add: roundTrip_def c)
  have i1: "?s < int (length (paragraphs ?d1))" using v l1 by simp
  have len: "2 \<le> length ?clip" by simp
  from pasteText_texts_multi[OF v(1) i1 len]
  have p: "fst (pasteText start ?clip ?d1) = Inr ()"
    "map text_p (paragraphs (snd (pasteText start ?clip ?d1))) =
       take (nat ?s) (map text_p (paragraphs ?d1)) @
       [slice ?t1 0 (Some ?a) @ text_c ?first] @
       map text_c ?mid @
       [text_c ?last @ slice ?t1 ?a None] @
       drop (nat ?s + 1) (map text_p (paragraphs ?d1))"
    by (simp_all add: t1 butlast_append)
  have b1: "slice ?t1 0 (Some ?a) = take (nat ?a) ?ts"
    using oa al by (simp add: slice_prefix)
  have b2: "slice ?t1 ?a None = drop (nat ?b) ?te"
    using oa al by (simp add: slice_suffix)
  have k1: "take (nat ?s) (map text_p (paragraphs ?d1)) = take (nat ?s) ?texts"
    using sl by (simp add: d(2))
  have k2: "drop (nat ?s + 1) (map text_p (paragraphs ?d1)) = drop (nat ?e + 1) ?texts"
    using sl by (simp add: d(2))
  have "map text_p (paragraphs (snd (pasteText start ?clip ?d1))) =
          take (nat ?s) ?texts @ [?texts ! nat ?s] @
          map (\<lambda>i. ?texts ! nat i) [int (nat ?s) + 1 .. int (nat ?e) - 1] @
          [?texts ! nat ?e] @ drop (nat ?e + 1) ?texts"
    unfolding p(2) k1 k2 b1 b2 tf tl tm using sl by simp
  also have "\<dots> = ?texts"
    using sl by (intro reassemble) simp_all
  finally show ?thesis using p(1) r by simp
qed

theorem roundTrip_restores_texts_witness:
  "validateRange pairSegmenter threeDoc (at 0 6) (at 2 3) = None \<and>
   singleUnits pairSegmenter (text_p (paragraphs threeDoc ! 0)) \<and>
   singleUnits pairSegmenter (text_p (paragraphs threeDoc ! 2)) \<and>
   copiedText pairSegmenter (at 0 6) (at 2 3) threeDoc 0 = utf16 ''paragraph'' \<and>
   cutText pairSegmenter (at 0 6) (at 2 3) threeDoc 0 = utf16 ''paragraph'' \<and>
   copiedText pairSegmenter (at 0 6) (at 2 3) threeDoc 2 = utf16 ''Thi'' \<and>
   cutText pairSegmenter (at 0 6) (at 2 3) threeDoc 2 = utf16 ''Thi'' \<and>
   fst (roundTrip pairSegmenter (at 0 6) (at 2 3) threeDoc) = Inr () \<and>
   map text_p (paragraphs (snd (roundTrip pairSegmenter (at 0 6) (at 2 3) threeDoc))) =
     map text_p (paragraphs threeDoc)"
proof -
  have v: "validateRange pairSegmenter threeDoc (at 0 6) (at 2 3) = None"
    by code_simp
  have i: "nat (paragraphIndex (at 0 6)) = 0" "nat (paragraphIndex (at 2 3)) = 2"
    "nat (paragraphIndex (at 2 3) - paragraphIndex (at 0 6)) = 2"
    by (simp_all add: at_def)
  have s0: "singleUnits pairSegmenter (text_p (paragraphs threeDoc ! 0))"
    and s2: "singleUnits pairSegmenter (text_p (paragraphs threeDoc ! 2))"
    by code_simp+
  have c: "copiedText pairSegmenter (at 0 6) (at 2 3) threeDoc 0 = utf16 ''paragraph''"
    "cutText pairSegmenter (at 0 6) (at 2 3) threeDoc 0 = utf16 ''paragraph''"
    "copiedText pairSegmenter (at 0 6) (at 2 3) threeDoc 2 = utf16 ''Thi''"
    "cutText pairSegmenter (at 0 6) (at 2 3) threeDoc 2 = utf16 ''Thi''"
    by code_simp+
  have "fst (roundTrip pairSegmenter (at 0 6) (at 2 3) threeDoc) = Inr () \<and>
        map text_p (paragraphs (snd (roundTrip pairSegmenter (at 0 6) (at 2 3) threeDoc))) =
          map text_p (paragraphs threeDoc)"
    by (rule roundTrip_restores_texts) (simp_all only: i v s0 s2 c)
  with v s0 s2 c show ?thesis by blast
qed

text \<open>
  Claim C4 as stated fails: the copied range \<open>" paragraph"\<close> starts with a space, which
  the copy trims off, and the round trip leaves \<open>Firstparagraph\<close>.
\<close>

theorem roundTrip_counterexample:
  "validateRange pairSegmenter testDoc (at 0 5) (at 0 15) = None \<and>
   fst (roundTrip pairSegmenter (at 0 5) (at 0 15) testDoc) = Inr () \<and>
   map text_p (paragraphs (snd (roundTrip pairSegmenter (at 0 5) (at 0 15) testDoc))) =
     [utf16 ''Firstparagraph''] \<and>
   map text_p (paragraphs testDoc) = [utf16 ''First paragraph'']"
  by code_simp


section \<open>Applying a style patch twice\<close>

lemma update_commute:
  "k \<noteq> k' \<Longrightarrow> k \<in> fst ` set t \<Longrightarrow>
     AList.update k' v' (AList.update k v t) = AList.update k v (AList.update k' v' t)"
  by (induction t) auto

lemma spread_Nil: "spread s [] = s"
  by (simp add: spread_def)

lemma spread_Cons: "spread s ((k, v) # q) = spread (AList.update k v s) q"
  by (simp add: spread_def)

lemma spread_overwritten:
  "k \<in> fst ` set q \<Longrightarrow> k \<in> fst ` set t \<Longrightarrow> spread (AList.update k v t) q = spread t q"
proof (induction q arbitrary: t v)
  case Nil
  then show ?case by simp
next
  case (Cons p q)
  obtain k' v' where p: "p = (k', v')" by (cases p)
  show ?case
  proof (cases "k' = k")
    case True
    then show ?thesis by (simp add: p spread_Cons)
  next
    case False
    with Cons.prems p have kq: "k \<in> fst ` set q" by auto
    have "spread (AList.update k v t) (p # q) =
            spread (AList.update k' v' (AList.update k v t)) q"
      by (simp add: p spread_Cons)
    also have "\<dots> = spread (AList.update k v (AList.update k' v' t)) q"
      using False Cons.prems(2) by (simp add: update_commute)
    also have "\<dots> = spread (AList.update k' v' t) q"
      using Cons.prems(2) by (intro Cons.IH kq) (simp add: dom_update)
    finally show ?thesis by (simp add: p spread_Cons)
  qed
qed

lemma map_of_spread: "map_of (spread s p) = map_of s ++ map_of (rev p)"
proof (induction p arbitrary: s)
  case Nil
  then show ?case by (simp add: spread_Nil)
next
  case (Cons kv p)
  obtain k v where kv: "kv = (k, v)" by (cases kv)
  have "map_of (spread s (kv # p)) = map_of (AList.update k v s) ++ map_of (rev p)"
    by (simp only: kv spread_Cons Cons.IH)
  also have "\<dots> = map_of s ++ map_of (rev (kv # p))"
    by (auto simp add: kv fun_eq_iff map_add_def update_conv split: option.splits)
  finally show ?case .
qed

lemma spread_absorbed:
  "(\<And>k v. map_of (rev p) k = Some v \<Longrightarrow> map_of t k = Some v) \<Longrightarrow> spread t p = t"
proof (induction p arbitrary: t)
  case Nil
  then show ?case by (simp add: spread_Nil)
next
  case (Cons kv p)
  obtain k v where kv: "kv = (k, v)" by (cases kv)
  have sub: "map_of t k' = Some v'" if "map_of (rev p) k' = Some v'" for k' v'
    using that by (intro Cons.prems) (simp add: kv map_add_def)
  show ?case
  proof (cases "k \<in> fst ` set p")
    case True
    then obtain w where "map_of (rev (kv # p)) k = Some w"
      by (cases "map_of (rev p) k") (auto simp add: kv map_add_def)
    then have "map_of t k = Some w" by (rule Cons.prems)
    then have "k \<in> fst ` set t" by (metis map_of_SomeD fst_conv image_eqI)
    then have "spread t (kv # p) = spread t p"
      using True by (simp add: kv spread_Cons spread_overwritten)
    also have "\<dots> = t" using sub by (rule Cons.IH)
    finally show ?thesis .
  next
    case False
    then have "map_of (rev p) k = None"
      by (simp add: map_of_eq_None_iff)
    then have "map_of (rev (kv # p)) k = Some v"
      by (simp add: kv map_add_def)
    then have "map_of t k = Some v" by (rule Cons.prems)
    then have "AList.update k v t = t" by (rule update_triv)
    then have "spread t (kv # p) = spread t p" by (simp add: kv spread_Cons)
    also have "\<dots> = t" using sub by (rule Cons.IH)
    finally show ?thesis .
  qed
qed

lemma spread_idem: "spread (spread s p) p = spread s p"
  by (rule spread_absorbed) (simp add: map_of_spread map_add_def)


subsection \<open>Runs as a list of styles, position by position\<close>

lemma expand_Nil [simp]: "expand [] = []"
  by (simp add: expand_def)

lemma expand_Cons [simp]:
  "expand (r # rs) = replicate (nat (length_r r)) (style r) @ expand rs"
  by (simp add: expand_def)

lemma expand_append [simp]: "expand (xs @ ys) = expand xs @ expand ys"
  by (simp add: expand_def)

lemma compress_Nil_iff [simp]: "compress xs = [] \<longleftrightarrow> xs = []"
  by (cases xs) (simp_all split: list.splits)

lemma compress_hd: "xs \<noteq> [] \<Longrightarrow> style (hd (compress xs)) = hd xs"
  by (cases xs) (simp_all split: list.splits)

lemma compress_positive: "list_all (\<lambda>r. 0 < length_r r) (compress xs)"
  by (induction xs) (auto split: list.splits)

lemma expand_compress: "expand (compress xs) = xs"
proof (induction xs)
  case Nil
  then show ?case by simp
next
  case (Cons x xs)
  show ?case
  proof (cases "compress xs")
    case Nil
    then show ?thesis by simp
  next
    case (Cons r rest)
    have pos: "0 < length_r r"
      using compress_positive[of xs] Cons by simp
    then have n: "nat (length_r r + 1) = Suc (nat (length_r r))" by simp
    from Cons Cons.IH have xs: "xs = replicate (nat (length_r r)) (style r) @ expand rest"
      by simp
    show ?thesis
    proof (cases "style r = x")
      case True
      have "expand (compress (x # xs)) =
              replicate (Suc (nat (length_r r))) x @ expand rest"
        using Cons True n by simp
      also have "\<dots> = x # xs" using xs True by simp
      finally show ?thesis .
    next
      case False
      then show ?thesis using Cons xs by simp
    qed
  qed
qed

lemma compress_replicate:
  assumes "xs = [] \<or> hd xs \<noteq> s"
  shows "compress (replicate (Suc n) s @ xs) = \<lparr>length_r = int (Suc n), style = s\<rparr> # compress xs"
proof (induction n)
  case 0
  show ?case
  proof (cases "compress xs")
    case Nil
    then show ?thesis by simp
  next
    case (Cons r rest)
    then have "xs \<noteq> []" by auto
    with assms compress_hd[of xs] Cons have "style r \<noteq> s" by auto
    with Cons show ?thesis by simp
  qed
next
  case (Suc n)
  have "compress (replicate (Suc (Suc n)) s @ xs) = compress (s # replicate (Suc n) s @ xs)"
    by simp
  also have "\<dots> = \<lparr>length_r = int (Suc n) + 1, style = s\<rparr> # compress xs"
    unfolding compress.simps Suc by simp
  finally show ?case by simp
qed

lemma run_eq: "r = \<lparr>length_r = length_r r, style = style r\<rparr>"
  by simp

lemma mergeFrom_compress:
  assumes "0 < length_r m" "list_all (\<lambda>r. 0 < length_r r) rs"
  shows "mergeFrom m rs = compress (expand (m # rs))"
  using assms
proof (induction rs arbitrary: m)
  case Nil
  obtain k where k: "nat (length_r m) = Suc k" using Nil.prems(1) by (cases "nat (length_r m)") auto
  then have "int (Suc k) = length_r m" using Nil.prems(1) by linarith
  then have "compress (replicate (Suc k) (style m) @ []) = [m]"
    using compress_replicate[of "[]" "style m" k] by simp
  then show ?case using k by simp
next
  case (Cons r rs)
  from Cons.prems have pr: "0 < length_r r" and prs: "list_all (\<lambda>r. 0 < length_r r) rs"
    by simp_all
  show ?case
  proof (cases "areStylesEqual (style m) (style r)")
    case True
    then have eq: "style r = style m" by (simp add: areStylesEqual_def)
    have "mergeFrom m (r # rs) = mergeFrom (m\<lparr>length_r := length_r m + length_r r\<rparr>) rs"
      using True by simp
    also have "\<dots> = compress (expand (m\<lparr>length_r := length_r m + length_r r\<rparr> # rs))"
      using Cons.prems pr by (intro Cons.IH) simp_all
    also have "expand (m\<lparr>length_r := length_r m + length_r r\<rparr> # rs) = expand (m # r # rs)"
      using Cons.prems(1) pr eq by (simp add: nat_add_distrib replicate_add)
    finally show ?thesis .
  next
    case False
    then have ne: "style r \<noteq> style m" by (auto simp: areStylesEqual_def)
    obtain k where k: "nat (length_r m) = Suc k"
      using Cons.prems(1) by (cases "nat (length_r m)") auto
    then have ik: "int (Suc k) = length_r m" using Cons.prems(1) by linarith
    obtain j where j: "nat (length_r r) = Suc j" using pr by (cases "nat (length_r r)") auto
    have hd: "hd (expand (r # rs)) \<noteq> style m" using j ne by simp
    have "compress (expand (m # r # rs)) =
            compress (replicate (Suc k) (style m) @ expand (r # rs))"
      using k by simp
    also have "\<dots> = \<lparr>length_r = int (Suc k), style = style m\<rparr> # compress (expand (r # rs))"
      using hd by (intro compress_replicate) simp
    also have "\<dots> = m # mergeFrom r rs"
      using Cons.IH[OF pr prs] ik by simp
    finally show ?thesis using False by simp
  qed
qed

lemma mergeAdjacentRuns_compress:
  "list_all (\<lambda>r. 0 < length_r r) rs \<Longrightarrow> mergeAdjacentRuns rs = compress (expand rs)"
  by (cases rs) (simp_all add: mergeAdjacentRuns_Nil mergeAdjacentRuns_Cons mergeFrom_compress
                   del: expand_Cons)

lemma patchFrom_append:
  "patchFrom a b st off (xs @ ys) =
     patchFrom a b st off xs @ patchFrom a b st (off + int (length xs)) ys"
proof (induction xs arbitrary: off)
  case Nil
  then show ?case by simp
next
  case (Cons x xs)
  have "off + 1 + int (length xs) = off + int (length (x # xs))" by simp
  with Cons.IH[of "off + 1"] show ?case by simp
qed

lemma patchFrom_outside:
  "off + int (length xs) \<le> a \<or> b \<le> off \<Longrightarrow> patchFrom a b st off xs = xs"
proof (induction xs arbitrary: off)
  case Nil
  then show ?case by simp
next
  case (Cons x xs)
  from Cons.prems have "off + 1 + int (length xs) \<le> a \<or> b \<le> off + 1" by auto
  then have "patchFrom a b st (off + 1) xs = xs" by (rule Cons.IH)
  moreover from Cons.prems have "\<not> (a \<le> off \<and> off < b)" by auto
  ultimately show ?case by auto
qed

lemma patchFrom_inside:
  "a \<le> off \<Longrightarrow> off + int (length xs) \<le> b \<Longrightarrow>
     patchFrom a b st off xs = map (\<lambda>x. spread x st) xs"
proof (induction xs arbitrary: off)
  case Nil
  then show ?case by simp
next
  case (Cons x xs)
  from Cons.prems have "a \<le> off + 1" "off + 1 + int (length xs) \<le> b" by auto
  then have "patchFrom a b st (off + 1) xs = map (\<lambda>x. spread x st) xs" by (rule Cons.IH)
  moreover from Cons.prems have "a \<le> off \<and> off < b" by auto
  ultimately show ?case by simp
qed

lemma patchFrom_idem:
  "patchFrom a b st off (patchFrom a b st off xs) = patchFrom a b st off xs"
  by (induction xs arbitrary: off) (simp_all add: spread_idem)

lemma length_patchFrom [simp]: "length (patchFrom a b st off xs) = length xs"
  by (induction xs arbitrary: off) simp_all

text \<open>The pieces that one iteration of the loop of \<open>applyStyleToSingleParagraph\<close> pushes.\<close>

lemma applyLoop_Cons:
  "applyLoop a b st off (r # rs) =
     (if off + length_r r \<le> a \<or> off \<ge> b then [r]
      else (if off < a then [\<lparr>length_r = a - off, style = style r\<rparr>] else []) @
           [\<lparr>length_r = min (off + length_r r) b - max off a, style = spread (style r) st\<rparr>] @
           (if off + length_r r > b then [\<lparr>length_r = off + length_r r - b, style = style r\<rparr>]
            else [])) @
     applyLoop a b st (off + length_r r) rs"
  by (simp add: Let_def)

lemma patchFrom_run:
  assumes n: "0 < n" and ab: "a < b" and over: "a < off + n" "off < b"
  shows "patchFrom a b st off (replicate (nat n) s) =
           replicate (nat (max off a - off)) s @
           replicate (nat (min (off + n) b - max off a)) (spread s st) @
           replicate (nat (off + n - min (off + n) b)) s"
proof -
  let ?n1 = "nat (max off a - off)" and ?n2 = "nat (min (off + n) b - max off a)"
    and ?n3 = "nat (off + n - min (off + n) b)"
  have sum: "nat n = ?n1 + (?n2 + ?n3)" using n ab over by linarith
  have o1: "off + int ?n1 = max off a" by (simp add: max_def)
  have o2: "max off a + int ?n2 = min (off + n) b" using n ab over by linarith
  have p1: "patchFrom a b st off (replicate ?n1 s) = replicate ?n1 s"
  proof (cases "off < a")
    case True
    then show ?thesis by (intro patchFrom_outside) (simp add: max_def)
  next
    case False
    then show ?thesis by (simp add: max_def)
  qed
  have p2: "patchFrom a b st (max off a) (replicate ?n2 s) = replicate ?n2 (spread s st)"
    using o2 by (subst patchFrom_inside) simp_all
  have p3: "patchFrom a b st (min (off + n) b) (replicate ?n3 s) = replicate ?n3 s"
  proof (cases "b < off + n")
    case True
    then show ?thesis by (intro patchFrom_outside) (simp add: min_def)
  next
    case False
    then show ?thesis by (simp add: min_def)
  qed
  have "patchFrom a b st off (replicate (nat n) s) =
          patchFrom a b st off (replicate ?n1 s @ replicate ?n2 s @ replicate ?n3 s)"
    by (simp only: sum replicate_add)
  also have "\<dots> = patchFrom a b st off (replicate ?n1 s) @
                     patchFrom a b st (max off a) (replicate ?n2 s) @
                     patchFrom a b st (min (off + n) b) (replicate ?n3 s)"
    by (simp only: patchFrom_append length_replicate o1 o2)
  finally show ?thesis by (simp only: p1 p2 p3)
qed

lemma applyLoop_denotes:
  assumes "list_all (\<lambda>r. 0 < length_r r) rs" and ab: "a < b"
  shows "list_all (\<lambda>r. 0 < length_r r) (applyLoop a b st off rs) \<and>
         expand (applyLoop a b st off rs) = patchFrom a b st off (expand rs)"
  using assms(1)
proof (induction rs arbitrary: off)
  case Nil
  then show ?case by simp
next
  case (Cons r rs)
  let ?n = "length_r r" and ?s = "style r"
  from Cons.prems have n: "0 < ?n" and prs: "list_all (\<lambda>r. 0 < length_r r) rs" by simp_all
  note IH = Cons.IH[OF prs, of "off + ?n"]
  have tail: "patchFrom a b st off (expand (r # rs)) =
                patchFrom a b st off (replicate (nat ?n) ?s) @
                patchFrom a b st (off + ?n) (expand rs)"
    using n by (simp add: patchFrom_append)
  show ?case
  proof (cases "off + ?n \<le> a \<or> off \<ge> b")
    case True
    then have "patchFrom a b st off (replicate (nat ?n) ?s) = replicate (nat ?n) ?s"
      using n by (intro patchFrom_outside) auto
    then show ?thesis using True IH n unfolding tail applyLoop_Cons by simp
  next
    case False
    then have over: "a < off + ?n" "off < b" by auto
    let ?pieces = "(if off < a then [\<lparr>length_r = a - off, style = ?s\<rparr>] else []) @
           [\<lparr>length_r = min (off + ?n) b - max off a, style = spread ?s st\<rparr>] @
           (if off + ?n > b then [\<lparr>length_r = off + ?n - b, style = ?s\<rparr>] else [])"
    have pos: "list_all (\<lambda>r. 0 < length_r r) ?pieces"
      using n ab over by (simp add: min_def max_def)
    have "expand ?pieces =
           replicate (nat (max off a - off)) ?s @
           replicate (nat (min (off + ?n) b - max off a)) (spread ?s st) @
           replicate (nat (off + ?n - min (off + ?n) b)) ?s"
      by (simp add: min_def max_def)
    also have "\<dots> = patchFrom a b st off (replicate (nat ?n) ?s)"
      by (rule patchFrom_run[OF n ab over, symmetric])
    finally have ex: "expand ?pieces = patchFrom a b st off (replicate (nat ?n) ?s)" .
    have al: "applyLoop a b st off (r # rs) = ?pieces @ applyLoop a b st (off + ?n) rs"
      using False unfolding applyLoop_Cons by simp
    have "list_all (\<lambda>r. 0 < length_r r) (?pieces @ applyLoop a b st (off + ?n) rs)"
      using pos IH by (simp only: list_all_append simp_thms)
    moreover have "expand (?pieces @ applyLoop a b st (off + ?n) rs) =
                     patchFrom a b st off (replicate (nat ?n) ?s) @
                     patchFrom a b st (off + ?n) (expand rs)"
      unfolding expand_append[of ?pieces] by (simp only: ex conjunct2[OF IH])
    ultimately show ?thesis
      unfolding al tail by (rule conjI)
  qed
qed

lemma applyStyleToRuns_nonempty_idem:
  assumes pos: "list_all (\<lambda>r. 0 < length_r r) rs" and ab: "a < b"
  shows "applyStyleToRuns a b st (applyStyleToRuns a b st rs) = applyStyleToRuns a b st rs"
proof -
  let ?P = "patchFrom a b st 0"
  from applyLoop_denotes[OF pos ab, of st 0]
  have 1: "applyStyleToRuns a b st rs = compress (?P (expand rs))"
    by (simp add: applyStyleToRuns_def mergeAdjacentRuns_compress)
  have pos': "list_all (\<lambda>r. 0 < length_r r) (compress (?P (expand rs)))"
    by (rule compress_positive)
  from applyLoop_denotes[OF pos' ab, of st 0]
  have "applyStyleToRuns a b st (compress (?P (expand rs))) =
          compress (?P (expand (compress (?P (expand rs)))))"
    by (simp add: applyStyleToRuns_def mergeAdjacentRuns_compress)
  also have "\<dots> = compress (?P (expand rs))"
    by (simp only: expand_compress patchFrom_idem)
  finally show ?thesis by (simp only: 1)
qed


subsection \<open>An empty range\<close>

lemma applyLoop_append:
  "applyLoop a b st off (xs @ ys) =
     applyLoop a b st off xs @ applyLoop a b st (off + sum_list (map length_r xs)) ys"
proof (induction xs arbitrary: off)
  case Nil
  then show ?case by simp
next
  case (Cons r xs)
  have "off + length_r r + sum_list (map length_r xs) = off + sum_list (map length_r (r # xs))"
    by simp
  with Cons.IH[of "off + length_r r"] show ?case
    by (simp only: append_Cons applyLoop_Cons append_assoc)
qed

lemma applyLoop_before:
  assumes "list_all (\<lambda>r. 0 \<le> length_r r) xs" "off + sum_list (map length_r xs) \<le> a"
  shows "applyLoop a b st off xs = xs"
  using assms
proof (induction xs arbitrary: off)
  case Nil
  then show ?case by simp
next
  case (Cons r xs)
  from Cons.prems have nn: "0 \<le> sum_list (map length_r xs)"
    by (auto intro!: sum_list_nonneg simp: list_all_iff)
  with Cons.prems have here: "off + length_r r \<le> a" by simp
  have "applyLoop a b st (off + length_r r) xs = xs"
    using Cons.prems by (intro Cons.IH) (simp_all add: add.assoc)
  with here show ?case by (simp only: applyLoop_Cons) simp
qed

lemma applyLoop_after:
  assumes "list_all (\<lambda>r. 0 \<le> length_r r) xs" "b \<le> off"
  shows "applyLoop a b st off xs = xs"
  using assms
proof (induction xs arbitrary: off)
  case Nil
  then show ?case by simp
next
  case (Cons r xs)
  have "applyLoop a b st (off + length_r r) xs = xs"
    using Cons.prems by (intro Cons.IH) simp_all
  with Cons.prems(2) show ?case by (simp only: applyLoop_Cons) simp
qed

lemma positive_nonneg:
  "list_all (\<lambda>r. 0 < length_r r) xs \<Longrightarrow> list_all (\<lambda>r. 0 \<le> length_r r) xs"
  by (induction xs) simp_all

lemma applyLoop_empty_range:
  assumes "list_all (\<lambda>r. 0 < length_r r) rs"
  shows "applyLoop a a st off rs = rs \<or>
         (\<exists>pre r post. rs = pre @ r # post \<and>
            off + sum_list (map length_r pre) < a \<and>
            a < off + sum_list (map length_r pre) + length_r r \<and>
            applyLoop a a st off rs =
              pre @ [\<lparr>length_r = a - (off + sum_list (map length_r pre)), style = style r\<rparr>,
                     \<lparr>length_r = 0, style = spread (style r) st\<rparr>,
                     \<lparr>length_r = off + sum_list (map length_r pre) + length_r r - a,
                       style = style r\<rparr>] @ post)"
  using assms
proof (induction rs arbitrary: off)
  case Nil
  then show ?case by simp
next
  case (Cons r rs)
  from Cons.prems have n: "0 < length_r r" and prs: "list_all (\<lambda>r. 0 < length_r r) rs"
    by simp_all
  show ?case
  proof (cases "off + length_r r \<le> a \<or> a \<le> off")
    case True
    then have al: "applyLoop a a st off (r # rs) = r # applyLoop a a st (off + length_r r) rs"
      by (simp only: applyLoop_Cons) simp
    from Cons.IH[OF prs, of "off + length_r r"] show ?thesis
    proof
      assume "applyLoop a a st (off + length_r r) rs = rs"
      with al show ?thesis by simp
    next
      assume "\<exists>pre r' post. rs = pre @ r' # post \<and>
            off + length_r r + sum_list (map length_r pre) < a \<and>
            a < off + length_r r + sum_list (map length_r pre) + length_r r' \<and>
            applyLoop a a st (off + length_r r) rs =
              pre @ [\<lparr>length_r = a - (off + length_r r + sum_list (map length_r pre)),
                       style = style r'\<rparr>,
                     \<lparr>length_r = 0, style = spread (style r') st\<rparr>,
                     \<lparr>length_r = off + length_r r + sum_list (map length_r pre) + length_r r' - a,
                       style = style r'\<rparr>] @ post"
      then obtain pre r' post where d: "rs = pre @ r' # post"
        "off + length_r r + sum_list (map length_r pre) < a"
        "a < off + length_r r + sum_list (map length_r pre) + length_r r'"
        "applyLoop a a st (off + length_r r) rs =
              pre @ [\<lparr>length_r = a - (off + length_r r + sum_list (map length_r pre)),
                       style = style r'\<rparr>,
                     \<lparr>length_r = 0, style = spread (style r') st\<rparr>,
                     \<lparr>length_r = off + length_r r + sum_list (map length_r pre) + length_r r' - a,
                       style = style r'\<rparr>] @ post"
        by blast
      have s: "off + sum_list (map length_r (r # pre)) = off + length_r r + sum_list (map length_r pre)"
        by simp
      have "r # rs = (r # pre) @ r' # post" using d(1) by simp
      moreover have "off + sum_list (map length_r (r # pre)) < a" using d(2) by (simp only: s)
      moreover have "a < off + sum_list (map length_r (r # pre)) + length_r r'"
        using d(3) by (simp only: s)
      moreover have "applyLoop a a st off (r # rs) =
              (r # pre) @ [\<lparr>length_r = a - (off + sum_list (map length_r (r # pre))),
                       style = style r'\<rparr>,
                     \<lparr>length_r = 0, style = spread (style r') st\<rparr>,
                     \<lparr>length_r = off + sum_list (map length_r (r # pre)) + length_r r' - a,
                       style = style r'\<rparr>] @ post"
        unfolding al d(4) s by simp
      ultimately show ?thesis by blast
    qed
  next
    case False
    then have inside: "off < a" "a < off + length_r r" by auto
    have rest: "applyLoop a a st (off + length_r r) rs = rs"
      using prs inside by (intro applyLoop_after positive_nonneg) simp_all
    have "applyLoop a a st off (r # rs) =
            [\<lparr>length_r = a - off, style = style r\<rparr>,
             \<lparr>length_r = 0, style = spread (style r) st\<rparr>,
             \<lparr>length_r = off + length_r r - a, style = style r\<rparr>] @ rs"
      using inside by (simp only: applyLoop_Cons rest) (simp add: min_def max_def)
    then have "r # rs = [] @ r # rs \<and>
            off + sum_list (map length_r []) < a \<and>
            a < off + sum_list (map length_r []) + length_r r \<and>
            applyLoop a a st off (r # rs) =
              [] @ [\<lparr>length_r = a - (off + sum_list (map length_r [])), style = style r\<rparr>,
                     \<lparr>length_r = 0, style = spread (style r) st\<rparr>,
                     \<lparr>length_r = off + sum_list (map length_r []) + length_r r - a,
                       style = style r\<rparr>] @ rs"
      using inside by simp
    then show ?thesis by blast
  qed
qed

lemma mergeFrom_join:
  "mergeFrom m (xs @ \<lparr>length_r = n1, style = s\<rparr> # \<lparr>length_r = n2, style = s\<rparr> # post) =
   mergeFrom m (xs @ \<lparr>length_r = n1 + n2, style = s\<rparr> # post)"
  by (induction xs arbitrary: m) (simp_all add: areStylesEqual_def add.assoc)

lemma mergeAdjacentRuns_join:
  "mergeAdjacentRuns (pre @ \<lparr>length_r = n1, style = s\<rparr> # \<lparr>length_r = n2, style = s\<rparr> # post) =
   mergeAdjacentRuns (pre @ \<lparr>length_r = n1 + n2, style = s\<rparr> # post)"
proof (cases pre)
  case Nil
  then show ?thesis
    using mergeFrom_join[of "\<lparr>length_r = n1, style = s\<rparr>" "[]" n2 s 0 post]
    by (simp add: mergeAdjacentRuns_Cons areStylesEqual_def)
next
  case (Cons p ps)
  then show ?thesis by (simp add: mergeAdjacentRuns_Cons mergeFrom_join)
qed

lemma noAdjacentEqual_cut:
  assumes "noAdjacentEqual (pre @ r # post)" "s' \<noteq> style r"
  shows "noAdjacentEqual (pre @ [\<lparr>length_r = x, style = style r\<rparr>,
           \<lparr>length_r = 0, style = s'\<rparr>, \<lparr>length_r = y, style = style r\<rparr>] @ post)"
  using assms(1)
proof (induction pre)
  case Nil
  then show ?case using assms(2)
    by (cases post) (auto simp: areStylesEqual_def)
next
  case (Cons p pre)
  then show ?case
    by (cases pre) (auto simp: noAdjacentEqual_Cons areStylesEqual_def)
qed

lemma applyStyleToRuns_empty_idem:
  assumes wf: "wellFormedRuns rs"
  shows "applyStyleToRuns a a st (applyStyleToRuns a a st rs) = applyStyleToRuns a a st rs"
proof -
  from wf have pos: "list_all (\<lambda>r. 0 < length_r r) rs" and i3: "noAdjacentEqual rs"
    by (simp_all add: wellFormedRuns_def)
  have fixed: "applyStyleToRuns a a st rs = rs \<Longrightarrow> ?thesis" by simp
  from applyLoop_empty_range[OF pos, of a st 0] show ?thesis
  proof
    assume "applyLoop a a st 0 rs = rs"
    then have "applyStyleToRuns a a st rs = rs"
      using i3 by (simp add: applyStyleToRuns_def mergeAdjacentRuns_fixed)
    then show ?thesis by (rule fixed)
  next
    assume "\<exists>pre r post. rs = pre @ r # post \<and>
            0 + sum_list (map length_r pre) < a \<and>
            a < 0 + sum_list (map length_r pre) + length_r r \<and>
            applyLoop a a st 0 rs =
              pre @ [\<lparr>length_r = a - (0 + sum_list (map length_r pre)), style = style r\<rparr>,
                     \<lparr>length_r = 0, style = spread (style r) st\<rparr>,
                     \<lparr>length_r = 0 + sum_list (map length_r pre) + length_r r - a,
                       style = style r\<rparr>] @ post"
    then obtain pre r post where d: "rs = pre @ r # post"
      "sum_list (map length_r pre) < a" "a < sum_list (map length_r pre) + length_r r"
      "applyLoop a a st 0 rs =
              pre @ [\<lparr>length_r = a - sum_list (map length_r pre), style = style r\<rparr>,
                     \<lparr>length_r = 0, style = spread (style r) st\<rparr>,
                     \<lparr>length_r = sum_list (map length_r pre) + length_r r - a,
                       style = style r\<rparr>] @ post"
      by auto
    let ?x = "a - sum_list (map length_r pre)"
    let ?y = "sum_list (map length_r pre) + length_r r - a"
    let ?X = "\<lparr>length_r = ?x, style = style r\<rparr>"
    let ?Z = "\<lparr>length_r = 0, style = spread (style r) st\<rparr>"
    let ?Y = "\<lparr>length_r = ?y, style = style r\<rparr>"
    let ?R = "pre @ [?X, ?Z, ?Y] @ post"
    show ?thesis
    proof (cases "spread (style r) st = style r")
      case True
      have "mergeAdjacentRuns ?R =
              mergeAdjacentRuns (pre @ \<lparr>length_r = ?x, style = style r\<rparr> #
                                       \<lparr>length_r = 0, style = style r\<rparr> # ?Y # post)"
        using True by simp
      also have "\<dots> = mergeAdjacentRuns (pre @ \<lparr>length_r = ?x + 0, style = style r\<rparr> # ?Y # post)"
        by (rule mergeAdjacentRuns_join)
      also have "\<dots> = mergeAdjacentRuns (pre @ \<lparr>length_r = ?x + 0 + ?y, style = style r\<rparr> # post)"
        by (rule mergeAdjacentRuns_join)
      also have "\<lparr>length_r = ?x + 0 + ?y, style = style r\<rparr> = r" by simp
      finally have "mergeAdjacentRuns ?R = mergeAdjacentRuns rs" using d(1) by simp
      then have "applyStyleToRuns a a st rs = rs"
        using i3 d(4) by (simp add: applyStyleToRuns_def mergeAdjacentRuns_fixed)
      then show ?thesis by (rule fixed)
    next
      case False
      have i3R: "noAdjacentEqual ?R"
        using i3 False unfolding d(1) by (rule noAdjacentEqual_cut)
      then have A: "applyStyleToRuns a a st rs = ?R"
        using d(4) by (simp add: applyStyleToRuns_def mergeAdjacentRuns_fixed)
      from pos d(1) have ppre: "list_all (\<lambda>r. 0 < length_r r) pre"
        and ppost: "list_all (\<lambda>r. 0 < length_r r) post" by simp_all
      have b1: "applyLoop a a st 0 (pre @ [?X]) = pre @ [?X]"
        using ppre d(2) by (intro applyLoop_before) (simp_all add: positive_nonneg)
      have b2: "applyLoop a a st (0 + sum_list (map length_r (pre @ [?X]))) (?Z # ?Y # post) =
                  ?Z # ?Y # post"
        using ppost d(3) by (intro applyLoop_after) (simp_all add: positive_nonneg)
      have "applyLoop a a st 0 ?R = applyLoop a a st 0 ((pre @ [?X]) @ ?Z # ?Y # post)"
        by simp
      also have "\<dots> = (pre @ [?X]) @ ?Z # ?Y # post"
        by (simp only: applyLoop_append[of a a st 0 "pre @ [?X]"] b1 b2)
      finally have "applyLoop a a st 0 ?R = ?R" by simp
      then have "applyStyleToRuns a a st ?R = ?R"
        using i3R by (simp add: applyStyleToRuns_def mergeAdjacentRuns_fixed)
      then show ?thesis by (simp only: A)
    qed
  qed
qed

lemma applyStyleToRuns_idem:
  assumes pos: "list_all (\<lambda>r. 0 < length_r r) rs" and ab: "a \<le> b"
    and empty: "a = b \<longrightarrow> noAdjacentEqual rs"
  shows "applyStyleToRuns a b st (applyStyleToRuns a b st rs) = applyStyleToRuns a b st rs"
proof (cases "a = b")
  case True
  with pos empty have "wellFormedRuns rs" by (simp add: wellFormedRuns_def)
  then show ?thesis using True applyStyleToRuns_empty_idem[of rs a st] by simp
next
  case False
  with ab have "a < b" by simp
  with pos show ?thesis by (intro applyStyleToRuns_nonempty_idem)
qed


subsection \<open>applyStyle twice\<close>

lemma validatePosition_texts:
  assumes "length (paragraphs d') = length (paragraphs d)"
    and "\<forall>j<length (paragraphs d). text_p (paragraphs d' ! j) = text_p (paragraphs d ! j)"
  shows "validatePosition seg d' pos = validatePosition seg d pos"
proof (cases "0 \<le> paragraphIndex pos \<and> paragraphIndex pos < int (length (paragraphs d))")
  case True
  then have "nat (paragraphIndex pos) < length (paragraphs d)" by linarith
  with assms(2) have "text_p (paragraphs d' ! nat (paragraphIndex pos)) =
                      text_p (paragraphs d ! nat (paragraphIndex pos))" by blast
  then show ?thesis using assms(1) by (simp add: validatePosition_def)
next
  case False
  then show ?thesis using assms(1) by (auto simp add: validatePosition_def)
qed

lemma validateRange_texts:
  assumes "length (paragraphs d') = length (paragraphs d)"
    and "\<forall>j<length (paragraphs d). text_p (paragraphs d' ! j) = text_p (paragraphs d ! j)"
  shows "validateRange seg d' start end = validateRange seg d start end"
  unfolding validateRange_def validatePosition_texts[OF assms] ..

lemma text_p_styledParagraph [simp]:
  "text_p (styledParagraph seg start end st doc j) = text_p (paragraphs doc ! j)"
  by (simp add: styledParagraph_def Let_def)

lemma Document_eq: "paragraphs d = paragraphs d' \<Longrightarrow> d = (d' :: Document)"
  by simp

text \<open>
  Where the second call repeats the first. In every paragraph of the range the runs have
  positive lengths, and a paragraph in which the range is empty (the start and the end of
  the range in it are one offset) has no two neighbouring runs that \<open>areStylesEqual\<close>
  takes for equal. Then \<open>applyStyle\<close> called a second time with the same arguments returns
  what the first call returned and leaves the document the first call left. Nothing is
  asked of the neighbours in a paragraph in which the range is not empty.
\<close>

lemma applyStyle_idempotent:
  assumes valid: "validateRange seg doc start end = None"
    and wf: "\<forall>j<length (paragraphs doc).
               paragraphIndex start \<le> int j \<and> int j \<le> paragraphIndex end \<longrightarrow>
               list_all (\<lambda>r. 0 < length_r r) (runs (paragraphs doc ! j)) \<and>
               (startIn start j = endIn seg doc end j \<longrightarrow>
                  noAdjacentEqual (runs (paragraphs doc ! j)))"
  shows "applyStyle seg start end st (snd (applyStyle seg start end st doc)) =
           applyStyle seg start end st doc"
proof -
  let ?d1 = "snd (applyStyle seg start end st doc)"
  let ?d2 = "snd (applyStyle seg start end st ?d1)"
  let ?s = "paragraphIndex start" and ?e = "paragraphIndex end"
  let ?n = "length (paragraphs doc)"
  let ?in = "\<lambda>j. ?s \<le> int j \<and> int j \<le> ?e"
  note n1 = applyStyle_nth[OF valid, of st]
  from n1 have l1: "length (paragraphs ?d1) = ?n" by blast
  have p1: "paragraphs ?d1 ! j =
              (if ?in j then styledParagraph seg start end st doc j else paragraphs doc ! j)"
    if "j < ?n" for j using n1 that by blast
  have t1: "\<forall>j<?n. text_p (paragraphs ?d1 ! j) = text_p (paragraphs doc ! j)"
    by (simp add: p1)
  have valid1: "validateRange seg ?d1 start end = None"
    using validateRange_texts[OF l1 t1] valid by simp
  note n2 = applyStyle_nth[OF valid1, of st]
  from n2 l1 have l2: "length (paragraphs ?d2) = ?n" by simp
  have p2: "paragraphs ?d2 ! j =
              (if ?in j then styledParagraph seg start end st ?d1 j else paragraphs ?d1 ! j)"
    if "j < ?n" for j using n2 l1 that by simp
  from valid have v: "0 \<le> offset start" "0 \<le> offset end" "0 \<le> ?s"
    "offset start \<le> getGraphemeCount seg (text_p (paragraphs doc ! nat ?s))"
    "?s < ?e \<or> ?s = ?e \<and> offset start \<le> offset end"
    by (simp_all add: validateRange_None validatePosition_None)
  have "paragraphs ?d2 ! j = paragraphs ?d1 ! j" if j: "j < ?n" for j
  proof (cases "?in j")
    case False
    then show ?thesis using p2[OF j] by auto
  next
    case True
    let ?p = "paragraphs doc ! j"
    let ?a = "if int j = ?s then offset start else 0"
    let ?b = "if int j = ?e then offset end else getGraphemeCount seg (text_p ?p)"
    have d1j: "paragraphs ?d1 ! j = ?p\<lparr>runs := applyStyleToRuns ?a ?b st (runs ?p)\<rparr>"
      using p1[OF j] True by (simp add: styledParagraph_def Let_def)
    have ab: "?a \<le> ?b"
    proof (cases "int j = ?s")
      case js: True
      then have "nat ?s = j" by simp
      with v js show ?thesis by (auto simp: getGraphemeCount_def)
    next
      case False
      then show ?thesis using v by (simp add: getGraphemeCount_def)
    qed
    from wf j True have pos: "list_all (\<lambda>r. 0 < length_r r) (runs ?p)"
      and empty: "?a = ?b \<longrightarrow> noAdjacentEqual (runs ?p)"
      by (simp_all add: startIn_def endIn_def)
    from pos ab empty
    have idem: "applyStyleToRuns ?a ?b st (applyStyleToRuns ?a ?b st (runs ?p)) =
                      applyStyleToRuns ?a ?b st (runs ?p)"
      by (rule applyStyleToRuns_idem)
    have "paragraphs ?d2 ! j = styledParagraph seg start end st ?d1 j"
      using p2[OF j] True by simp
    also have "\<dots> = (paragraphs ?d1 ! j)\<lparr>runs :=
                 applyStyleToRuns ?a ?b st (runs (paragraphs ?d1 ! j))\<rparr>"
      by (simp add: styledParagraph_def Let_def d1j)
    also have "\<dots> = paragraphs ?d1 ! j"
      unfolding d1j using idem by simp
    finally show ?thesis .
  qed
  then have "paragraphs ?d2 = paragraphs ?d1"
    using l1 l2 by (intro nth_equalityI) simp_all
  then have "?d2 = ?d1" by (rule Document_eq)
  moreover have "fst (applyStyle seg start end st ?d1) = Inr ()"
    using valid1 by (rule applyStyle_ok)
  moreover have "fst (applyStyle seg start end st doc) = Inr ()"
    using valid by (rule applyStyle_ok)
  ultimately show ?thesis by (simp add: prod_eq_iff)
qed

text \<open>
  On the document with the two runs of one style, a range that is not empty is styled the
  same by one call and by two: the runs after either are 10 in the old style and 9 in the
  new one.
\<close>

lemma applyStyle_idempotent_appendedDoc:
  "applyStyle pairSegmenter (at 0 10) (at 0 19) (fontSize 20)
     (snd (applyStyle pairSegmenter (at 0 10) (at 0 19) (fontSize 20) appendedDoc)) =
   applyStyle pairSegmenter (at 0 10) (at 0 19) (fontSize 20) appendedDoc \<and>
   runs (hd (paragraphs
     (snd (applyStyle pairSegmenter (at 0 10) (at 0 19) (fontSize 20) appendedDoc)))) =
     [\<lparr>length_r = 10, style = fontSize 16\<rparr>, \<lparr>length_r = 9, style = fontSize 20\<rparr>]"
proof -
  have v: "validateRange pairSegmenter appendedDoc (at 0 10) (at 0 19) = None"
    by code_simp
  have w: "\<forall>j<length (paragraphs appendedDoc).
               paragraphIndex (at 0 10) \<le> int j \<and> int j \<le> paragraphIndex (at 0 19) \<longrightarrow>
               list_all (\<lambda>r. 0 < length_r r) (runs (paragraphs appendedDoc ! j)) \<and>
               (startIn (at 0 10) j = endIn pairSegmenter appendedDoc (at 0 19) j \<longrightarrow>
                  noAdjacentEqual (runs (paragraphs appendedDoc ! j)))"
    by (simp add: appendedDoc_def startIn_def endIn_def at_def)
  have r: "runs (hd (paragraphs
     (snd (applyStyle pairSegmenter (at 0 10) (at 0 19) (fontSize 20) appendedDoc)))) =
     [\<lparr>length_r = 10, style = fontSize 16\<rparr>, \<lparr>length_r = 9, style = fontSize 20\<rparr>]"
    by code_simp
  from applyStyle_idempotent [OF v w, of "fontSize 20"] r show ?thesis by blast
qed

text \<open>
  Claim C7 says that \<open>applyStyle\<close> called twice with the same range and patch leaves the run
  structure that one call leaves. The code breaks this on a document that \<open>insertText\<close>
  produces. After the insertion at the end of the paragraph the runs have lengths 15 and 4
  and one style. With the empty range at offset 15, the first \<open>applyStyle\<close> finds no run
  around the offset and merges the two runs into one of length 19. The second finds the
  offset inside that run and pushes the patched piece between the two halves without
  looking at its length: the runs are 15, 0 and 4, the one of length 0 in the patched
  style, and the two calls differ from the one. The loop pushes the piece before the range
  and the piece after it only when they are not empty, and \<open>updateRunLengths\<close> and the
  deletion drop every run of length 0; the patched piece of an empty range is the case
  left out.
\<close>

theorem applyStyle_twice_leaves_empty_run:
  "snd (insertText pairSegmenter nfcId (at 0 15) (utf16 '' end'') (fontSize 16) testDoc) =
     appendedDoc \<and>
   validateRange pairSegmenter appendedDoc (at 0 15) (at 0 15) = None \<and>
   runs (hd (paragraphs
     (snd (applyStyle pairSegmenter (at 0 15) (at 0 15) (fontSize 20) appendedDoc)))) =
     [\<lparr>length_r = 19, style = fontSize 16\<rparr>] \<and>
   runs (hd (paragraphs
     (snd (applyStyle pairSegmenter (at 0 15) (at 0 15) (fontSize 20)
        (snd (applyStyle pairSegmenter (at 0 15) (at 0 15) (fontSize 20) appendedDoc)))))) =
     [\<lparr>length_r = 15, style = fontSize 16\<rparr>, \<lparr>length_r = 0, style = fontSize 20\<rparr>,
      \<lparr>length_r = 4, style = fontSize 16\<rparr>] \<and>
   applyStyle pairSegmenter (at 0 15) (at 0 15) (fontSize 20)
     (snd (applyStyle pairSegmenter (at 0 15) (at 0 15) (fontSize 20) appendedDoc)) \<noteq>
   applyStyle pairSegmenter (at 0 15) (at 0 15) (fontSize 20) appendedDoc"
  by code_simp

end
